theory Spec2Isabelle
  imports Main
begin

section \<open>Constants of the module\<close>

definition BATCH_SIZE :: nat where
  "BATCH_SIZE = 1000"

definition BATCH_DELAY_MS :: nat where
  "BATCH_DELAY_MS = 1000"

definition QUEUE_COLLECTION :: string where
  "QUEUE_COLLECTION = ''BreakingNewsQueuedItem''"

section \<open>Documents\<close>

text \<open>
  A user document: \<open>_id\<close>, \<open>profile.created\<close> and \<open>bot.disabled\<close>. The disabled flag may
  be missing from a document, hence the option.
\<close>

record user =
  user_id :: nat
  profile_created :: nat
  bot_disabled :: "bool option"

text \<open>
  An article document. \<open>isPublished\<close> and \<open>isPriority\<close> may be missing;
  \<open>_receivedByUsers\<close> is a Mongo array that is only ever extended with \<open>$addToSet\<close>.
\<close>

record article =
  article_id :: nat
  feedId :: nat
  title :: string
  description :: string
  imageUrl :: string
  articleDate :: nat
  isPublished :: "bool option"
  isPriority :: "bool option"
  receivedByUsers :: "nat list"

text \<open>A document of the queue collection: \<open>_id\<close>, the two snapshots and \<open>addedDate\<close>.\<close>

record queueItem =
  item_id :: nat
  userData :: user
  articleData :: article
  addedDate :: nat

section \<open>Messages\<close>

text \<open>
  The payload of the read button is the template string
  \<open>${READ_SERVER_BASE_URL}/${recArticle.feedId}/${recArticle._id}/${recUser._id}\<close>;
  the base URL is a fixed configuration value, so the link is kept as its three parameters.
\<close>

datatype readLink = ReadLink nat nat nat

datatype button = Button string string readLink bool

datatype element = Element string string string "button list"

datatype messageBody =
    Text string
  | Carousel bool "element list" "string list"

datatype message = Outgoing user messageBody

datatype error = StoreError | ChannelError | TypeError

text \<open>
  What a caller passes in the \<open>MessageObject\<close> position: the message class, or (as the
  continuation of \<open>queueBreakingNewsItems\<close> does) a number.
\<close>

datatype messageObject = MessageObject | JSNumber nat

text \<open>\<open>MessageObject.outgoing(recUser, body)\<close>; on a number \<open>outgoing\<close> is undefined and the call throws.\<close>

fun outgoing :: "messageObject \<Rightarrow> user \<Rightarrow> messageBody \<Rightarrow> error + message" where
  "outgoing MessageObject recUser body = Inr (Outgoing recUser body)"
| "outgoing (JSNumber n) recUser body = Inl TypeError"

section \<open>The collaborators: store, channel and timers\<close>

text \<open>
  Every call on a collaborator is recorded, with whether it succeeded: a page query (the
  collection and \<open>skip\<close>), the article lookup for a user (the user's id), the insertion of an
  obligation (user id, article id), a received-set update (article id, user id), the batch
  delete (the identifiers), a send (the user and the message) and the setting of a timer (the
  delay).
\<close>

datatype call =
    DbGet string nat
  | DbGetArticle nat
  | DbInsert nat nat
  | DbUpdate nat nat
  | DbDeleteWhere "nat list"
  | SendMessage user message
  | SetTimeout nat

type_synonym event = "call \<times> bool"

text \<open>
  The \<open>database\<close> object as the functions receive it: whether the operation issued after a
  given history succeeds, and whether a query without matches answers with an absent value
  instead of an empty list. The documents themselves live in the world below.
\<close>

record database =
  storeOk :: "event list \<Rightarrow> call \<Rightarrow> bool"
  absentWhenEmpty :: bool

text \<open>The \<open>sendMessage\<close> capability: whether the channel takes this message after this history.\<close>

type_synonym sendMessageFn = "event list \<Rightarrow> user \<Rightarrow> message \<Rightarrow> bool"

text \<open>
  A deferred continuation: \<open>sendQueuedItems.bind(this, database, MessageObject, sendMessage, skip)\<close>.
  An argument that was not bound is \<open>None\<close> (undefined).
\<close>

datatype task = Bound database messageObject "sendMessageFn option" "nat option"

text \<open>
  The state: the three collections, the two counters from which the store takes the identifier
  and the \<open>addedDate\<close> of an inserted obligation, the calls recorded so far, the pending
  timers, and the failures of the calls that timers made (unhandled rejections).
\<close>

record world =
  userColl :: "user list"
  articleColl :: "article list"
  queueColl :: "queueItem list"
  nextId :: nat
  clock :: nat
  trace :: "event list"
  timers :: "task list"
  unhandled :: "error list"

definition called :: "call \<Rightarrow> bool \<Rightarrow> world \<Rightarrow> world" where
  "called c ok w = w\<lparr>trace := trace w @ [(c, ok)]\<rparr>"

text \<open>
  Modelled from the spec: the store abstraction (\<open>get\<close>, \<open>insert\<close>, \<open>update\<close>,
  \<open>deleteWhere\<close>) belongs to an external library. \<open>get(collection, filter, {sort, skip, limit})\<close>
  is a paged, sorted, filtered read that answers with a list of records or with an absent value.
\<close>

definition store_query :: "('a \<Rightarrow> bool) \<Rightarrow> ('a \<Rightarrow> nat) \<Rightarrow> nat \<Rightarrow> nat \<Rightarrow> 'a list \<Rightarrow> 'a list" where
  "store_query cond key skip limit docs = take limit (drop skip (sort_key key (filter cond docs)))"

definition db_get ::
  "database \<Rightarrow> call \<Rightarrow> 'a list \<Rightarrow> ('a \<Rightarrow> bool) \<Rightarrow> ('a \<Rightarrow> nat) \<Rightarrow> nat \<Rightarrow> nat \<Rightarrow> world
     \<Rightarrow> (error + 'a list option) \<times> world" where
  "db_get db c docs cond key skip limit w =
     (if storeOk db (trace w) c then
        (let rs = store_query cond key skip limit docs
         in (Inr (if rs = [] \<and> absentWhenEmpty db then None else Some rs), called c True w))
      else (Inl StoreError, called c False w))"

text \<open>
  Modelled from the spec: the article lookup passes no limit and uses the answer as one
  record, "the single earliest-by-publish-date article", absent when nothing matches.
\<close>

definition db_get_first ::
  "database \<Rightarrow> call \<Rightarrow> 'a list \<Rightarrow> ('a \<Rightarrow> bool) \<Rightarrow> ('a \<Rightarrow> nat) \<Rightarrow> world
     \<Rightarrow> (error + 'a option) \<times> world" where
  "db_get_first db c docs cond key w =
     (if storeOk db (trace w) c then
        (Inr (case sort_key key (filter cond docs) of [] \<Rightarrow> None | r # _ \<Rightarrow> Some r), called c True w)
      else (Inl StoreError, called c False w))"

text \<open>
  Modelled from the spec: \<open>insert(collection, record)\<close> is a durable single-record write; the
  stored obligation gets a unique identifier and an insertion-order timestamp.
\<close>

definition db_insert :: "database \<Rightarrow> user \<Rightarrow> article \<Rightarrow> world \<Rightarrow> (error + unit) \<times> world" where
  "db_insert db recUser recArticle w =
     (let c = DbInsert (user_id recUser) (article_id recArticle) in
      if storeOk db (trace w) c then
        (Inr (), called c True
           (w\<lparr>queueColl := queueColl w @
                 [\<lparr>item_id = nextId w, userData = recUser, articleData = recArticle,
                   addedDate = clock w\<rparr>],
              nextId := Suc (nextId w), clock := Suc (clock w)\<rparr>))
      else (Inl StoreError, called c False w))"

text \<open>
  Modelled from the spec: the \<open>$addToSet\<close> mutation is a set-add on an array field, a no-op
  when the value is already present.
\<close>

definition addToSet :: "nat \<Rightarrow> nat list \<Rightarrow> nat list" where
  "addToSet x xs = (if x \<in> set xs then xs else xs @ [x])"

definition markReceived :: "nat \<Rightarrow> article \<Rightarrow> article" where
  "markReceived uid a = a\<lparr>receivedByUsers := addToSet uid (receivedByUsers a)\<rparr>"

text \<open>
  Modelled from the spec: \<open>update(collection, record, mutation)\<close> applies the mutation to the
  stored document that has the identifier of the given record.
\<close>

definition applyUpdate :: "article \<Rightarrow> nat \<Rightarrow> article list \<Rightarrow> article list" where
  "applyUpdate recArticle uid docs =
     map (\<lambda>a. if article_id a = article_id recArticle then markReceived uid a else a) docs"

definition db_update :: "database \<Rightarrow> article \<Rightarrow> nat \<Rightarrow> world \<Rightarrow> (error + unit) \<times> world" where
  "db_update db recArticle uid w =
     (let c = DbUpdate (article_id recArticle) uid in
      if storeOk db (trace w) c then
        (Inr (), called c True (w\<lparr>articleColl := applyUpdate recArticle uid (articleColl w)\<rparr>))
      else (Inl StoreError, called c False w))"

text \<open>Modelled from the spec: \<open>deleteWhere(collection, filter)\<close> with the filter \<open>_id: {$in: ids}\<close>.\<close>

definition db_deleteWhere :: "database \<Rightarrow> nat list \<Rightarrow> world \<Rightarrow> (error + unit) \<times> world" where
  "db_deleteWhere db ids w =
     (let c = DbDeleteWhere ids in
      if storeOk db (trace w) c then
        (Inr (), called c True (w\<lparr>queueColl := filter (\<lambda>q. item_id q \<notin> set ids) (queueColl w)\<rparr>))
      else (Inl StoreError, called c False w))"

text \<open>
  \<open>await sendMessage(userData, message)\<close>. Calling an undefined \<open>sendMessage\<close> throws a
  TypeError before anything reaches the channel.
\<close>

definition callSendMessage ::
  "sendMessageFn option \<Rightarrow> user \<Rightarrow> message \<Rightarrow> world \<Rightarrow> (error + unit) \<times> world" where
  "callSendMessage sendMessage recUser m w =
     (case sendMessage of
        None \<Rightarrow> (Inl TypeError, w)
      | Some f \<Rightarrow>
          if f (trace w) recUser m then (Inr (), called (SendMessage recUser m) True w)
          else (Inl ChannelError, called (SendMessage recUser m) False w))"

text \<open>
  \<open>setTimeout(fnRecurse, BATCH_DELAY_MS)\<close>. All timers of the module have the same delay, so
  they fire in the order in which they were set: the pending ones are kept as a queue.
\<close>

definition setTimeout :: "task \<Rightarrow> nat \<Rightarrow> world \<Rightarrow> world" where
  "setTimeout t delay w = called (SetTimeout delay) True (w\<lparr>timers := timers w @ [t]\<rparr>)"

section \<open>The module\<close>

definition getBatchOfQueuedItems ::
  "database \<Rightarrow> nat \<Rightarrow> world \<Rightarrow> (error + queueItem list) \<times> world" where
  "getBatchOfQueuedItems db skip w =
     (case db_get db (DbGet QUEUE_COLLECTION skip) (queueColl w) (\<lambda>q. True) addedDate skip BATCH_SIZE w of
        (Inl e, w') \<Rightarrow> (Inl e, w')
      | (Inr recQueueItems, w') \<Rightarrow>
          (Inr (case recQueueItems of None \<Rightarrow> [] | Some rs \<Rightarrow> rs), w'))"

definition constructBreakingNewMessages ::
  "user \<Rightarrow> article \<Rightarrow> messageObject \<Rightarrow> error + (message \<times> message)" where
  "constructBreakingNewMessages recUser recArticle MO =
     (case outgoing MO recUser (Text ''Breaking news!'') of
        Inl e \<Rightarrow> Inl e
      | Inr alertMessage \<Rightarrow>
          (case outgoing MO recUser
                  (Carousel True
                     [Element (title recArticle) (description recArticle) (imageUrl recArticle)
                        [Button ''url'' ''Read''
                           (ReadLink (feedId recArticle) (article_id recArticle) (user_id recUser))
                           True]]
                     [''More stories'', ''Main menu'']) of
             Inl e \<Rightarrow> Inl e
           | Inr carouselMessage \<Rightarrow> Inr (alertMessage, carouselMessage)))"

text \<open>The \<open>for\<close> loop of \<open>sendQueuedItems\<close>, with its two accumulators.\<close>

fun sendLoop ::
  "messageObject \<Rightarrow> sendMessageFn option \<Rightarrow> queueItem list \<Rightarrow> nat list \<times> (user \<times> article) list
     \<Rightarrow> world \<Rightarrow> (error + nat list \<times> (user \<times> article) list) \<times> world" where
  "sendLoop MO sendMessage [] acc w = (Inr acc, w)"
| "sendLoop MO sendMessage (recQueueItem # rest) (expendedQueueItemIds, expendedQueueItemData) w =
     (case constructBreakingNewMessages (userData recQueueItem) (articleData recQueueItem) MO of
        Inl e \<Rightarrow> (Inl e, w)
      | Inr (alertMessage, carouselMessage) \<Rightarrow>
          (case callSendMessage sendMessage (userData recQueueItem) alertMessage w of
             (Inl e, w1) \<Rightarrow> (Inl e, w1)
           | (Inr u1, w1) \<Rightarrow>
               (case callSendMessage sendMessage (userData recQueueItem) carouselMessage w1 of
                  (Inl e, w2) \<Rightarrow> (Inl e, w2)
                | (Inr u2, w2) \<Rightarrow>
                    sendLoop MO sendMessage rest
                      (expendedQueueItemIds @ [item_id recQueueItem],
                       expendedQueueItemData @ [(userData recQueueItem, articleData recQueueItem)])
                      w2)))"

text \<open>
  \<open>expendedQueueItemData.map(... database.update ...)\<close> followed by \<open>Promise.all\<close>: every
  update is issued, in order; the result is the first failure, if any.
\<close>

fun markAsReceived :: "database \<Rightarrow> (user \<times> article) list \<Rightarrow> world \<Rightarrow> error option \<times> world" where
  "markAsReceived db [] w = (None, w)"
| "markAsReceived db ((recUser, recArticle) # rest) w =
     (case db_update db recArticle (user_id recUser) w of
        (r, w1) \<Rightarrow>
          (case markAsReceived db rest w1 of
             (r', w2) \<Rightarrow> ((case r of Inl e \<Rightarrow> Some e | Inr u \<Rightarrow> r'), w2)))"

text \<open>
  One call of \<open>sendQueuedItems\<close>: it handles one page and leaves the next page to a timer.
  The \<open>skip\<close> parameter defaults to 0.
\<close>

definition sendQueuedItems ::
  "database \<Rightarrow> messageObject \<Rightarrow> sendMessageFn option \<Rightarrow> nat option \<Rightarrow> world
     \<Rightarrow> (error + unit) \<times> world" where
  "sendQueuedItems db MO sendMessage skipArg w =
     (let skip = (case skipArg of None \<Rightarrow> 0 | Some s \<Rightarrow> s) in
      case getBatchOfQueuedItems db skip w of
        (Inl e, w1) \<Rightarrow> (Inl e, w1)
      | (Inr recQueueItems, w1) \<Rightarrow>
          if length recQueueItems = 0 then (Inr (), w1)
          else
            (case sendLoop MO sendMessage recQueueItems ([], []) w1 of
               (Inl e, w2) \<Rightarrow> (Inl e, w2)
             | (Inr (expendedQueueItemIds, expendedQueueItemData), w2) \<Rightarrow>
                 (case markAsReceived db expendedQueueItemData w2 of
                    (Some e, w3) \<Rightarrow> (Inl e, w3)
                  | (None, w3) \<Rightarrow>
                      (case db_deleteWhere db expendedQueueItemIds w3 of
                         (Inl e, w4) \<Rightarrow> (Inl e, w4)
                       | (Inr u, w4) \<Rightarrow>
                           (Inr (),
                            setTimeout (Bound db MO sendMessage (Some (skip + BATCH_SIZE)))
                              BATCH_DELAY_MS w4)))))"

definition getBatchOfUsers :: "database \<Rightarrow> nat \<Rightarrow> world \<Rightarrow> (error + user list) \<times> world" where
  "getBatchOfUsers db skip w =
     (case db_get db (DbGet ''User'' skip) (userColl w) (\<lambda>u. bot_disabled u \<noteq> Some True) user_id
             skip BATCH_SIZE w of
        (Inl e, w') \<Rightarrow> (Inl e, w')
      | (Inr recUsers, w') \<Rightarrow> (Inr (case recUsers of None \<Rightarrow> [] | Some rs \<Rightarrow> rs), w'))"

text \<open>The \<open>conditions\<close> object of \<open>getNextBreakingNewsForUser\<close>.\<close>

definition conditions :: "user \<Rightarrow> article \<Rightarrow> bool" where
  "conditions recUser a \<longleftrightarrow>
     user_id recUser \<notin> set (receivedByUsers a) \<and>
     articleDate a > profile_created recUser \<and>
     isPublished a \<noteq> Some False \<and>
     isPriority a = Some True"

definition getNextBreakingNewsForUser ::
  "database \<Rightarrow> user \<Rightarrow> world \<Rightarrow> (error + article option) \<times> world" where
  "getNextBreakingNewsForUser db recUser w =
     db_get_first db (DbGetArticle (user_id recUser)) (articleColl w) (conditions recUser)
       articleDate w"

text \<open>The \<open>for\<close> loop of \<open>queueBreakingNewsItems\<close>.\<close>

fun queueLoop :: "database \<Rightarrow> user list \<Rightarrow> world \<Rightarrow> (error + unit) \<times> world" where
  "queueLoop db [] w = (Inr (), w)"
| "queueLoop db (recUser # rest) w =
     (case getNextBreakingNewsForUser db recUser w of
        (Inl e, w1) \<Rightarrow> (Inl e, w1)
      | (Inr None, w1) \<Rightarrow> queueLoop db rest w1
      | (Inr (Some recArticle), w1) \<Rightarrow>
          (case db_insert db recUser recArticle w1 of
             (Inl e, w2) \<Rightarrow> (Inl e, w2)
           | (Inr u, w2) \<Rightarrow> queueLoop db rest w2))"

text \<open>
  One call of \<open>queueBreakingNewsItems\<close>. Its continuation is
  \<open>sendQueuedItems.bind(this, database, numCompletedUsers)\<close>: the number arrives in the
  \<open>MessageObject\<close> position, \<open>sendMessage\<close> and \<open>skip\<close> stay undefined.
\<close>

definition queueBreakingNewsItems :: "database \<Rightarrow> nat option \<Rightarrow> world \<Rightarrow> (error + unit) \<times> world" where
  "queueBreakingNewsItems db skipArg w =
     (let skip = (case skipArg of None \<Rightarrow> 0 | Some s \<Rightarrow> s) in
      case getBatchOfUsers db skip w of
        (Inl e, w1) \<Rightarrow> (Inl e, w1)
      | (Inr recUsers, w1) \<Rightarrow>
          if length recUsers = 0 then (Inr (), w1)
          else
            (case queueLoop db recUsers w1 of
               (Inl e, w2) \<Rightarrow> (Inl e, w2)
             | (Inr u, w2) \<Rightarrow>
                 (Inr (),
                  setTimeout (Bound db (JSNumber (skip + BATCH_SIZE)) None None) BATCH_DELAY_MS w2)))"

section \<open>Timers\<close>

text \<open>
  A timer that fires calls the bound function; nobody awaits the promise, so a failure is an
  unhandled rejection.
\<close>

fun runTask :: "task \<Rightarrow> world \<Rightarrow> world" where
  "runTask (Bound db MO sendMessage skipArg) w =
     (case sendQueuedItems db MO sendMessage skipArg w of
        (Inl e, w') \<Rightarrow> w'\<lparr>unhandled := unhandled w' @ [e]\<rparr>
      | (Inr u, w') \<Rightarrow> w')"

text \<open>
  The event loop once the awaited call has returned: fire the pending timers, oldest first,
  until none is left. The fuel bounds the number of timers fired; \<open>None\<close> means it ran out.
  The functions \<open>sendQueuedItems\<close> and \<open>queueBreakingNewsItems\<close> above describe a call
  that runs from its first query to its return with nothing else running in between: a timer
  is set by the last statement of a call and fires \<open>BATCH_DELAY_MS\<close> later, so within one
  chain of pages this is exact. Calls that overlap in time are the matter of the processes
  below.
\<close>

fun runTimers :: "nat \<Rightarrow> world \<Rightarrow> world option" where
  "runTimers 0 w = (if timers w = [] then Some w else None)"
| "runTimers (Suc n) w =
     (case timers w of
        [] \<Rightarrow> Some w
      | t # ts \<Rightarrow> runTimers n (runTask t (w\<lparr>timers := ts\<rparr>)))"

section \<open>The module as processes\<close>











section \<open>Interleaving\<close>






section \<open>Vocabulary of the properties\<close>

text \<open>
  The two messages of an obligation, as \<open>constructBreakingNewMessages\<close> builds them with
  the message class.
\<close>

definition alertMessageFor :: "queueItem \<Rightarrow> message" where
  "alertMessageFor q = Outgoing (userData q) (Text ''Breaking news!'')"

definition carouselMessageFor :: "queueItem \<Rightarrow> message" where
  "carouselMessageFor q =
     Outgoing (userData q)
       (Carousel True
          [Element (title (articleData q)) (description (articleData q)) (imageUrl (articleData q))
             [Button ''url'' ''Read''
                (ReadLink (feedId (articleData q)) (article_id (articleData q)) (user_id (userData q)))
                True]]
          [''More stories'', ''Main menu''])"

text \<open>The calls of \<open>sendMessage\<close> for the items of a page: the alert, then the card, item after item.\<close>

definition pageSends :: "queueItem list \<Rightarrow> call list" where
  "pageSends items =
     concat (map (\<lambda>q. [SendMessage (userData q) (alertMessageFor q),
                        SendMessage (userData q) (carouselMessageFor q)]) items)"

text \<open>The received-set updates for the items of a page, one per item.\<close>

definition pageUpdates :: "queueItem list \<Rightarrow> call list" where
  "pageUpdates items = map (\<lambda>q. DbUpdate (article_id (articleData q)) (user_id (userData q))) items"

text \<open>Calls recorded as having succeeded.\<close>

definition succeeded :: "call list \<Rightarrow> event list" where
  "succeeded cs = map (\<lambda>c. (c, True)) cs"

text \<open>Kinds of recorded calls.\<close>

fun isSend :: "event \<Rightarrow> bool" where
  "isSend (SendMessage u m, ok) = True"
| "isSend ev = False"

fun isUpdate :: "event \<Rightarrow> bool" where
  "isUpdate (DbUpdate a u, ok) = True"
| "isUpdate ev = False"

fun isDelete :: "event \<Rightarrow> bool" where
  "isDelete (DbDeleteWhere ids, ok) = True"
| "isDelete ev = False"

text \<open>The identifiers of the users to whom \<open>sendMessage\<close> was called, in the order of the calls.\<close>

fun recipient :: "event \<Rightarrow> nat list" where
  "recipient (SendMessage u m, ok) = [user_id u]"
| "recipient ev = []"

definition recipients :: "event list \<Rightarrow> nat list" where
  "recipients evs = concat (map recipient evs)"

text \<open>
  The page of the queue at \<open>skip\<close>, and the page of users at \<open>skip\<close>, that the store
  answers with when it does not fail.
\<close>

definition thePage :: "nat \<Rightarrow> world \<Rightarrow> queueItem list" where
  "thePage skip w = take BATCH_SIZE (drop skip (sort_key addedDate (queueColl w)))"

definition usersPage :: "nat \<Rightarrow> world \<Rightarrow> user list" where
  "usersPage skip w =
     take BATCH_SIZE (drop skip (sort_key user_id (filter (\<lambda>u. bot_disabled u \<noteq> Some True) (userColl w))))"

text \<open>
  What the lookup of the next article for a user may answer on a collection: an article that
  meets the conditions and has the least publish date among those that do, or nothing when no
  article meets the conditions.
\<close>

definition selects :: "user \<Rightarrow> article list \<Rightarrow> article option \<Rightarrow> bool" where
  "selects recUser docs r \<longleftrightarrow>
     (case r of
        None \<Rightarrow> \<not> (\<exists>a \<in> set docs. conditions recUser a)
      | Some a \<Rightarrow> a \<in> set docs \<and> conditions recUser a
          \<and> (\<forall>a' \<in> set docs. conditions recUser a' \<longrightarrow> articleDate a \<le> articleDate a'))"

text \<open>The (user, article) pairs to enqueue for a page of users and the answers of their lookups.\<close>

definition obligations :: "user list \<Rightarrow> article option list \<Rightarrow> (user \<times> article) list" where
  "obligations us picks =
     concat (map (\<lambda>(u, r). case r of None \<Rightarrow> [] | Some a \<Rightarrow> [(u, a)]) (zip us picks))"

text \<open>Two states that differ at most in the recorded calls.\<close>

definition sameStore :: "world \<Rightarrow> world \<Rightarrow> bool" where
  "sameStore w w' \<longleftrightarrow>
     userColl w' = userColl w \<and> articleColl w' = articleColl w \<and> queueColl w' = queueColl w
     \<and> nextId w' = nextId w \<and> clock w' = clock w \<and> timers w' = timers w \<and> unhandled w' = unhandled w"

text \<open>An obligation with the disabled flag of its user snapshot replaced.\<close>

definition withFlags :: "(queueItem \<Rightarrow> bool option) \<Rightarrow> queueItem \<Rightarrow> queueItem" where
  "withFlags f q = q\<lparr>userData := (userData q)\<lparr>bot_disabled := f q\<rparr>\<rparr>"







section \<open>Concrete inputs\<close>

text \<open>A store that never fails, answering with lists; and one that answers with an absent value when nothing matches.\<close>

definition reliableStore :: database where
  "reliableStore = \<lparr>storeOk = (\<lambda>h c. True), absentWhenEmpty = False\<rparr>"

definition nullStore :: database where
  "nullStore = \<lparr>storeOk = (\<lambda>h c. True), absentWhenEmpty = True\<rparr>"

text \<open>A channel that takes every message; and one that refuses the messages to the user 2.\<close>

definition openChannel :: sendMessageFn where
  "openChannel = (\<lambda>h u m. True)"

definition refusesSecond :: sendMessageFn where
  "refusesSecond = (\<lambda>h u m. user_id u \<noteq> 2)"

text \<open>The user, the article and the obligation number \<open>i\<close> of the generated inputs.\<close>

definition mkUser :: "nat \<Rightarrow> user" where
  "mkUser i = \<lparr>user_id = i, profile_created = 0, bot_disabled = None\<rparr>"

definition news :: article where
  "news = \<lparr>article_id = 7, feedId = 1, title = ''T'', description = ''D'', imageUrl = ''I'',
           articleDate = 5, isPublished = Some True, isPriority = Some True, receivedByUsers = []\<rparr>"

definition mkItem :: "nat \<Rightarrow> queueItem" where
  "mkItem i = \<lparr>item_id = i, userData = mkUser i, articleData = news, addedDate = i\<rparr>"

text \<open>States.\<close>

definition emptyWorld :: world where
  "emptyWorld = \<lparr>userColl = [], articleColl = [], queueColl = [], nextId = 0, clock = 0,
                  trace = [], timers = [], unhandled = []\<rparr>"

definition threeQueued :: world where
  "threeQueued = emptyWorld\<lparr>articleColl := [news], queueColl := [mkItem 1, mkItem 2, mkItem 3],
                   nextId := 4, clock := 4\<rparr>"

text \<open>A small User and Article collection.\<close>

definition alice :: user where
  "alice = \<lparr>user_id = 1, profile_created = 10, bot_disabled = None\<rparr>"

definition bob :: user where
  "bob = \<lparr>user_id = 2, profile_created = 100, bot_disabled = Some False\<rparr>"

definition carol :: user where
  "carol = \<lparr>user_id = 3, profile_created = 0, bot_disabled = Some True\<rparr>"

definition story :: "nat \<Rightarrow> nat \<Rightarrow> bool option \<Rightarrow> bool option \<Rightarrow> nat list \<Rightarrow> article" where
  "story i d pub prio rcv =
     \<lparr>article_id = i, feedId = 1, title = ''T'', description = ''D'', imageUrl = ''I'',
      articleDate = d, isPublished = pub, isPriority = prio, receivedByUsers = rcv\<rparr>"

definition newsroom :: world where
  "newsroom = emptyWorld\<lparr>
     userColl := [carol, bob, alice],
     articleColl :=
       [story 1 30 (Some True) (Some True) [],
        story 2 9 (Some True) (Some True) [],
        story 3 12 (Some False) (Some True) [],
        story 4 15 (Some True) None [],
        story 5 11 None (Some True) [1],
        story 6 20 None (Some True) [2]]\<rparr>"

definition disabledQueued :: world where
  "disabledQueued = emptyWorld\<lparr>userColl := [carol, alice], articleColl := [news],
      queueColl := [\<lparr>item_id = 9, userData = carol, articleData = news, addedDate = 0\<rparr>],
      nextId := 10, clock := 1\<rparr>"

text \<open>A queue of \<open>n\<close> obligations, and a User collection of \<open>n\<close> users who are all owed the same article.\<close>

definition bigQueue :: "nat \<Rightarrow> world" where
  "bigQueue n = emptyWorld\<lparr>articleColl := [news], queueColl := map mkItem [0..<n],
                   nextId := n, clock := n\<rparr>"

definition bigAudience :: "nat \<Rightarrow> world" where
  "bigAudience n = emptyWorld\<lparr>userColl := map mkUser [0..<n], articleColl := [news]\<rparr>"

text \<open>
  Successive calls of the Dispatcher at \<open>skip = 0\<close>, as every invocation of
  \<open>sendOutstanding\<close> makes them, with a store that never fails and a channel that takes
  every message.
\<close>

primrec drainCalls :: "nat \<Rightarrow> world \<Rightarrow> world" where
  "drainCalls 0 w = w"
| "drainCalls (Suc n) w =
     drainCalls n (snd (sendQueuedItems reliableStore MessageObject (Some openChannel) None w))"






section \<open>The collaborators\<close>

lemma trace_called [simp]: "trace (called c ok w) = trace w @ [(c, ok)]"
  by (simp add: called_def)

lemma sameStore_refl [simp]: "sameStore w w"
  by (simp add: sameStore_def)

lemma sameStore_called [simp]: "sameStore w (called c ok w') = sameStore w w'"
  by (simp add: sameStore_def called_def)

lemma db_update_fields:
  "db_update db a uid w = (r, w') \<Longrightarrow>
     userColl w' = userColl w \<and> queueColl w' = queueColl w \<and> nextId w' = nextId w
     \<and> clock w' = clock w \<and> timers w' = timers w \<and> unhandled w' = unhandled w
     \<and> trace w' = trace w @ [(DbUpdate (article_id a) uid, r = Inr ())]"
  by (auto simp add: db_update_def called_def Let_def split: if_splits)

lemma db_deleteWhere_cases:
  "db_deleteWhere db ids w = (r, w') \<Longrightarrow>
     (r = Inl StoreError \<and> w' = called (DbDeleteWhere ids) False w
        \<and> \<not> storeOk db (trace w) (DbDeleteWhere ids))
   \<or> (r = Inr () \<and> w' = called (DbDeleteWhere ids) True
          (w\<lparr>queueColl := filter (\<lambda>q. item_id q \<notin> set ids) (queueColl w)\<rparr>))"
  by (auto simp add: db_deleteWhere_def Let_def split: if_splits)

lemma db_insert_cases:
  "db_insert db recUser recArticle w = (r, w') \<Longrightarrow>
     (r = Inl StoreError \<and> w' = called (DbInsert (user_id recUser) (article_id recArticle)) False w
        \<and> \<not> storeOk db (trace w) (DbInsert (user_id recUser) (article_id recArticle)))
   \<or> (r = Inr () \<and> w' = called (DbInsert (user_id recUser) (article_id recArticle)) True
         (w\<lparr>queueColl := queueColl w @
                 [\<lparr>item_id = nextId w, userData = recUser, articleData = recArticle,
                   addedDate = clock w\<rparr>],
              nextId := Suc (nextId w), clock := Suc (clock w)\<rparr>))"
  by (auto simp add: db_insert_def Let_def split: if_splits)

lemma construct_MessageObject:
  "constructBreakingNewMessages (userData q) (articleData q) MessageObject
     = Inr (alertMessageFor q, carouselMessageFor q)"
  by (simp add: constructBreakingNewMessages_def alertMessageFor_def carouselMessageFor_def)

lemma construct_JSNumber:
  "constructBreakingNewMessages u a (JSNumber n) = Inl TypeError"
  by (simp add: constructBreakingNewMessages_def)

lemma isSend_not_others: "isSend ev \<Longrightarrow> \<not> isUpdate ev \<and> \<not> isDelete ev"
  by (cases ev rule: isSend.cases) simp_all

lemma isUpdate_not_others: "isUpdate ev \<Longrightarrow> \<not> isSend ev \<and> \<not> isDelete ev"
  by (cases ev rule: isUpdate.cases) simp_all

lemma list_all_isSend_succeeded_pageSends: "list_all isSend (succeeded (pageSends items))"
  by (induction items) (simp_all add: succeeded_def pageSends_def)

lemma list_all_isSend_weaken: "list_all isSend evs \<Longrightarrow> list_all (\<lambda>ev. \<not> isUpdate ev \<and> \<not> isDelete ev) evs"
  by (induction evs) (simp_all add: isSend_not_others)

lemma isUpdate_ok_not_failed_send: "list_all isUpdate evs \<Longrightarrow> (SendMessage u m, False) \<notin> set evs"
  by (induction evs) auto

lemma succeeded_not_failed: "(c, False) \<notin> set (succeeded cs)"
  by (auto simp add: succeeded_def)

lemma pageSends_members:
  "q \<in> set items \<Longrightarrow>
     (SendMessage (userData q) (alertMessageFor q), True) \<in> set (succeeded (pageSends items))
   \<and> (SendMessage (userData q) (carouselMessageFor q), True) \<in> set (succeeded (pageSends items))"
  by (induction items) (auto simp add: succeeded_def pageSends_def)

lemma recipients_append: "recipients (xs @ ys) = recipients xs @ recipients ys"
  by (simp add: recipients_def)

lemma recipients_no_send: "list_all (\<lambda>ev. \<not> isSend ev) evs \<Longrightarrow> recipients evs = []"
proof (induction evs)
  case Nil
  then show ?case by (simp add: recipients_def)
next
  case (Cons ev evs)
  then have "\<not> isSend ev" by simp
  then have "recipient ev = []" by (cases ev rule: recipient.cases) simp_all
  with Cons show ?case by (simp add: recipients_def)
qed

section \<open>The send loop and the received-set updates\<close>

text \<open>One iteration of the send loop, by cases.\<close>

lemma sendLoop_Cons_cases:
  assumes "sendLoop MO sm (q # qs) (ids, dat) w = (r, w')"
  shows "(r = Inl TypeError \<and> w' = w \<and> (MO \<noteq> MessageObject \<or> sm = None))
       \<or> (MO = MessageObject \<and> r = Inl ChannelError
            \<and> w' = called (SendMessage (userData q) (alertMessageFor q)) False w)
       \<or> (MO = MessageObject \<and> r = Inl ChannelError
            \<and> w' = called (SendMessage (userData q) (carouselMessageFor q)) False
                     (called (SendMessage (userData q) (alertMessageFor q)) True w))
       \<or> (MO = MessageObject \<and> sm \<noteq> None
            \<and> sendLoop MO sm qs (ids @ [item_id q], dat @ [(userData q, articleData q)])
                 (called (SendMessage (userData q) (carouselMessageFor q)) True
                    (called (SendMessage (userData q) (alertMessageFor q)) True w)) = (r, w'))"
proof (cases MO)
  case (JSNumber n)
  with assms show ?thesis by (simp add: construct_JSNumber)
next
  case MessageObject
  with assms show ?thesis
    by (auto simp add: construct_MessageObject callSendMessage_def
        split: option.splits if_splits)
qed

lemma sendLoop_fields:
  "sendLoop MO sm items acc w = (r, w') \<Longrightarrow> sameStore w w'"
proof (induction items arbitrary: acc w)
  case Nil
  then show ?case by simp
next
  case (Cons q qs)
  obtain ids dat where acc: "acc = (ids, dat)" by (cases acc)
  from sendLoop_Cons_cases [OF Cons.prems [unfolded acc]] show ?case
  proof (elim disjE conjE)
    assume "sendLoop MO sm qs (ids @ [item_id q], dat @ [(userData q, articleData q)])
                 (called (SendMessage (userData q) (carouselMessageFor q)) True
                    (called (SendMessage (userData q) (alertMessageFor q)) True w)) = (r, w')"
    from Cons.IH [OF this] show ?thesis by (simp add: sameStore_def called_def)
  qed simp_all
qed

text \<open>The events the loop adds are sends; a failed one makes the loop fail with the channel's error.\<close>

lemma sendLoop_trace:
  "sendLoop MO sm items acc w = (r, w') \<Longrightarrow>
     \<exists>evs. trace w' = trace w @ evs \<and> list_all isSend evs
        \<and> ((\<exists>ev \<in> set evs. \<not> snd ev) \<longrightarrow> r = Inl ChannelError)"
proof (induction items arbitrary: acc w)
  case Nil
  then show ?case by simp
next
  case (Cons q qs)
  obtain ids dat where acc: "acc = (ids, dat)" by (cases acc)
  from sendLoop_Cons_cases [OF Cons.prems [unfolded acc]] show ?case
  proof (elim disjE conjE)
    assume "sendLoop MO sm qs (ids @ [item_id q], dat @ [(userData q, articleData q)])
                 (called (SendMessage (userData q) (carouselMessageFor q)) True
                    (called (SendMessage (userData q) (alertMessageFor q)) True w)) = (r, w')"
    from Cons.IH [OF this] obtain evs where
      "trace w' = trace w @ [(SendMessage (userData q) (alertMessageFor q), True),
                             (SendMessage (userData q) (carouselMessageFor q), True)] @ evs"
      "list_all isSend evs" "(\<exists>ev \<in> set evs. \<not> snd ev) \<longrightarrow> r = Inl ChannelError"
      by auto
    then show ?thesis by auto
  qed auto
qed

text \<open>A loop that succeeds has sent the alert and the card of every item, in order.\<close>

lemma sendLoop_Inr:
  "sendLoop MO sm items (ids, dat) w = (Inr acc', w') \<Longrightarrow>
     acc' = (ids @ map item_id items, dat @ map (\<lambda>q. (userData q, articleData q)) items)
     \<and> trace w' = trace w @ succeeded (pageSends items)"
proof (induction items arbitrary: ids dat w)
  case Nil
  then show ?case by (simp add: pageSends_def succeeded_def)
next
  case (Cons q qs)
  from sendLoop_Cons_cases [OF Cons.prems] show ?case
  proof (elim disjE conjE)
    assume "sendLoop MO sm qs (ids @ [item_id q], dat @ [(userData q, articleData q)])
                 (called (SendMessage (userData q) (carouselMessageFor q)) True
                    (called (SendMessage (userData q) (alertMessageFor q)) True w)) = (Inr acc', w')"
    from Cons.IH [OF this] show ?thesis by (simp add: pageSends_def succeeded_def)
  qed simp_all
qed

lemma sendLoop_JSNumber:
  "items \<noteq> [] \<Longrightarrow> sendLoop (JSNumber n) sm items acc w = (Inl TypeError, w)"
  by (cases items; cases acc) (simp_all add: construct_JSNumber)

lemma sendLoop_open:
  "fst (sendLoop MessageObject (Some openChannel) items (ids, dat) w)
     = Inr (ids @ map item_id items, dat @ map (\<lambda>q. (userData q, articleData q)) items)"
  by (induction items arbitrary: ids dat w)
    (simp_all add: construct_MessageObject callSendMessage_def openChannel_def)

lemma markAsReceived_fields:
  "markAsReceived db dat w = (r, w') \<Longrightarrow>
     userColl w' = userColl w \<and> queueColl w' = queueColl w \<and> nextId w' = nextId w
     \<and> clock w' = clock w \<and> timers w' = timers w \<and> unhandled w' = unhandled w"
proof (induction dat arbitrary: w r w')
  case Nil
  then show ?case by simp
next
  case (Cons p rest)
  obtain u a where p: "p = (u, a)" by (cases p)
  obtain r1 w1 where s1: "db_update db a (user_id u) w = (r1, w1)" by force
  obtain r2 w2 where s2: "markAsReceived db rest w1 = (r2, w2)" by force
  from Cons.prems p s1 s2 have "w' = w2" by simp
  with Cons.IH [OF s2] db_update_fields [OF s1] show ?case by simp
qed

lemma markAsReceived_trace:
  "markAsReceived db dat w = (r, w') \<Longrightarrow>
     \<exists>evs. trace w' = trace w @ evs \<and> list_all isUpdate evs
       \<and> (r = None \<longrightarrow> evs = succeeded (map (\<lambda>(u, a). DbUpdate (article_id a) (user_id u)) dat))"
proof (induction dat arbitrary: w r w')
  case Nil
  then show ?case by (simp add: succeeded_def)
next
  case (Cons p rest)
  obtain u a where p: "p = (u, a)" by (cases p)
  obtain r1 w1 where s1: "db_update db a (user_id u) w = (r1, w1)" by force
  obtain r2 w2 where s2: "markAsReceived db rest w1 = (r2, w2)" by force
  from Cons.prems p s1 s2 have w': "w' = w2" and r: "r = (case r1 of Inl e \<Rightarrow> Some e | Inr u \<Rightarrow> r2)"
    by simp_all
  from Cons.IH [OF s2] obtain evs where evs: "trace w2 = trace w1 @ evs" "list_all isUpdate evs"
    "r2 = None \<longrightarrow> evs = succeeded (map (\<lambda>(u, a). DbUpdate (article_id a) (user_id u)) rest)"
    by blast
  from db_update_fields [OF s1] have t1: "trace w1 = trace w @ [(DbUpdate (article_id a) (user_id u), r1 = Inr ())]"
    by simp
  have "r = None \<longrightarrow> r1 = Inr () \<and> r2 = None" using r by (cases r1) auto
  with evs t1 w' p show ?case by (auto simp add: succeeded_def)
qed

lemma markAsReceived_reliable: "fst (markAsReceived reliableStore dat w) = None"
proof (induction dat arbitrary: w)
  case Nil
  then show ?case by simp
next
  case (Cons p rest)
  obtain u a where p: "p = (u, a)" by (cases p)
  obtain r1 w1 where s1: "db_update reliableStore a (user_id u) w = (r1, w1)" by force
  then have "r1 = Inr ()" by (simp add: db_update_def reliableStore_def Let_def)
  moreover obtain r2 w2 where s2: "markAsReceived reliableStore rest w1 = (r2, w2)" by force
  moreover from Cons.IH [of w1] s2 have "r2 = None" by simp
  ultimately show ?case using p s1 by simp
qed

section \<open>One call of the Dispatcher\<close>

lemma getBatchOfQueuedItems_cases:
  "getBatchOfQueuedItems db skip w = (r, w') \<Longrightarrow>
     (r = Inl StoreError \<and> w' = called (DbGet QUEUE_COLLECTION skip) False w
        \<and> \<not> storeOk db (trace w) (DbGet QUEUE_COLLECTION skip))
   \<or> (r = Inr (thePage skip w) \<and> w' = called (DbGet QUEUE_COLLECTION skip) True w)"
  by (auto simp add: getBatchOfQueuedItems_def db_get_def store_query_def thePage_def Let_def
      split: if_splits)

lemma thePage_subset: "set (thePage skip w) \<subseteq> set (queueColl w)"
proof -
  have "set (thePage skip w) \<subseteq> set (drop skip (sort_key addedDate (queueColl w)))"
    unfolding thePage_def by (rule set_take_subset)
  also have "\<dots> \<subseteq> set (sort_key addedDate (queueColl w))" by (rule set_drop_subset)
  finally show ?thesis by simp
qed

text \<open>The page at \<open>skip\<close> is empty as soon as the queue holds no more than \<open>skip\<close> items.\<close>

lemma thePage_short: "length (queueColl w) \<le> skip \<Longrightarrow> thePage skip w = []"
  by (simp add: thePage_def)

lemma thePage_nonempty:
  assumes "queueColl w \<noteq> []"
  shows "thePage 0 w \<noteq> []"
proof -
  have "length (sort_key addedDate (queueColl w)) = length (queueColl w)" by simp
  with assms have "sort_key addedDate (queueColl w) \<noteq> []" by (metis length_0_conv)
  then show ?thesis by (simp add: thePage_def BATCH_SIZE_def)
qed

lemma page_deleted_shrinks:
  assumes "thePage skip w \<noteq> []"
  shows "length (filter (\<lambda>q. item_id q \<notin> set (map item_id (thePage skip w))) (queueColl w))
           < length (queueColl w)"
proof -
  from assms obtain q where q: "q \<in> set (thePage skip w)" by (cases "thePage skip w") auto
  with thePage_subset have "q \<in> set (queueColl w)" by blast
  moreover from q have "\<not> item_id q \<notin> set (map item_id (thePage skip w))" by simp
  ultimately show ?thesis by (rule length_filter_less)
qed

text \<open>The ways in which one call of \<open>sendQueuedItems\<close> can end.\<close>

lemma sendQueuedItems_cases:
  assumes "sendQueuedItems db MO sm skipArg w = (r, w')"
  defines "skip \<equiv> (case skipArg of None \<Rightarrow> 0 | Some s \<Rightarrow> s)"
  defines "w1 \<equiv> called (DbGet QUEUE_COLLECTION skip) True w"
  shows "(r = Inl StoreError \<and> w' = called (DbGet QUEUE_COLLECTION skip) False w
            \<and> \<not> storeOk db (trace w) (DbGet QUEUE_COLLECTION skip))
       \<or> (thePage skip w = [] \<and> r = Inr () \<and> w' = w1)
       \<or> (thePage skip w \<noteq> [] \<and> (\<exists>e. r = Inl e \<and> sendLoop MO sm (thePage skip w) ([], []) w1 = (Inl e, w')))
       \<or> (thePage skip w \<noteq> [] \<and> (\<exists>acc w2 e. sendLoop MO sm (thePage skip w) ([], []) w1 = (Inr acc, w2)
              \<and> markAsReceived db (snd acc) w2 = (Some e, w') \<and> r = Inl e))
       \<or> (thePage skip w \<noteq> [] \<and> (\<exists>acc w2 w3 e. sendLoop MO sm (thePage skip w) ([], []) w1 = (Inr acc, w2)
              \<and> markAsReceived db (snd acc) w2 = (None, w3)
              \<and> db_deleteWhere db (fst acc) w3 = (Inl e, w') \<and> r = Inl e))
       \<or> (thePage skip w \<noteq> [] \<and> (\<exists>acc w2 w3 w4. sendLoop MO sm (thePage skip w) ([], []) w1 = (Inr acc, w2)
              \<and> markAsReceived db (snd acc) w2 = (None, w3)
              \<and> db_deleteWhere db (fst acc) w3 = (Inr (), w4) \<and> r = Inr ()
              \<and> w' = setTimeout (Bound db MO sm (Some (skip + BATCH_SIZE))) BATCH_DELAY_MS w4))"
proof -
  obtain r0 w0 where g: "getBatchOfQueuedItems db skip w = (r0, w0)" by force
  from getBatchOfQueuedItems_cases [OF g] show ?thesis
  proof (elim disjE conjE)
    assume "r0 = Inl StoreError" "w0 = called (DbGet QUEUE_COLLECTION skip) False w"
      "\<not> storeOk db (trace w) (DbGet QUEUE_COLLECTION skip)"
    with assms(1) g show ?thesis by (simp add: sendQueuedItems_def skip_def)
  next
    assume a: "r0 = Inr (thePage skip w)" "w0 = called (DbGet QUEUE_COLLECTION skip) True w"
    show ?thesis
    proof (cases "thePage skip w = []")
      case True
      with assms(1) g a show ?thesis by (simp add: sendQueuedItems_def skip_def w1_def)
    next
      case False
      with assms(1) g a show ?thesis
        unfolding sendQueuedItems_def skip_def [symmetric] w1_def [symmetric] Let_def
        by (auto simp add: w1_def split: sum.splits prod.splits option.splits)
    qed
  qed
qed

text \<open>What a call of \<open>sendQueuedItems\<close> that succeeds has recorded up to its last send.\<close>

lemma sendQueuedItems_Inr_trace:
  assumes "sendQueuedItems db MO sm skipArg w = (Inr (), w')"
  shows "\<exists>rest. trace w' = trace w
             @ (DbGet QUEUE_COLLECTION (case skipArg of None \<Rightarrow> 0 | Some s \<Rightarrow> s), True)
               # succeeded (pageSends (thePage (case skipArg of None \<Rightarrow> 0 | Some s \<Rightarrow> s) w)) @ rest
           \<and> list_all (\<lambda>ev. \<not> isSend ev) rest"
  using sendQueuedItems_cases [OF assms]
proof (elim disjE conjE exE)
  assume "thePage (case skipArg of None \<Rightarrow> 0 | Some s \<Rightarrow> s) w = []"
    and "w' = called (DbGet QUEUE_COLLECTION (case skipArg of None \<Rightarrow> 0 | Some s \<Rightarrow> s)) True w"
  then show ?thesis by (simp add: succeeded_def pageSends_def)
next
  fix acc w2 w3 w4
  assume s: "sendLoop MO sm (thePage (case skipArg of None \<Rightarrow> 0 | Some s \<Rightarrow> s) w) ([], [])
      (called (DbGet QUEUE_COLLECTION (case skipArg of None \<Rightarrow> 0 | Some s \<Rightarrow> s)) True w) = (Inr acc, w2)"
    and m: "markAsReceived db (snd acc) w2 = (None, w3)"
    and d: "db_deleteWhere db (fst acc) w3 = (Inr (), w4)"
    and w': "w' = setTimeout (Bound db MO sm (Some ((case skipArg of None \<Rightarrow> 0 | Some s \<Rightarrow> s) + BATCH_SIZE)))
                   BATCH_DELAY_MS w4"
  from markAsReceived_trace [OF m] obtain U where U: "trace w3 = trace w2 @ U" "list_all isUpdate U"
    by blast
  from U(2) have nU: "list_all (\<lambda>ev. \<not> isSend ev) U"
    by (induction U) (simp_all add: isUpdate_not_others)
  from db_deleteWhere_cases [OF d] have "trace w4 = trace w3 @ [(DbDeleteWhere (fst acc), True)]"
    by auto
  with sendLoop_Inr [OF s] U(1) w'
  have "trace w' = trace w
      @ (DbGet QUEUE_COLLECTION (case skipArg of None \<Rightarrow> 0 | Some s \<Rightarrow> s), True)
        # succeeded (pageSends (thePage (case skipArg of None \<Rightarrow> 0 | Some s \<Rightarrow> s) w))
        @ (U @ [(DbDeleteWhere (fst acc), True), (SetTimeout BATCH_DELAY_MS, True)])"
    by (simp add: setTimeout_def)
  moreover have "list_all (\<lambda>ev. \<not> isSend ev)
      (U @ [(DbDeleteWhere (fst acc), True), (SetTimeout BATCH_DELAY_MS, True)])"
    using nU by simp
  ultimately show ?thesis by blast
qed simp_all

text \<open>What a call of \<open>sendQueuedItems\<close> that succeeds has done to the queue and to the timers.\<close>

lemma sendQueuedItems_Inr_effect:
  assumes "sendQueuedItems db MO sm skipArg w = (Inr (), w')"
  defines "skip \<equiv> (case skipArg of None \<Rightarrow> 0 | Some s \<Rightarrow> s)"
  shows "queueColl w' = filter (\<lambda>q. item_id q \<notin> set (map item_id (thePage skip w))) (queueColl w)
       \<and> timers w' = (if thePage skip w = [] then timers w
                      else timers w @ [Bound db MO sm (Some (skip + BATCH_SIZE))])
       \<and> userColl w' = userColl w \<and> unhandled w' = unhandled w"
  using sendQueuedItems_cases [OF assms(1), folded skip_def]
proof (elim disjE conjE exE)
  assume "thePage skip w = []" "w' = called (DbGet QUEUE_COLLECTION skip) True w"
  then show ?thesis by (simp add: called_def)
next
  fix acc w2 w3 w4
  assume ne: "thePage skip w \<noteq> []"
    and s: "sendLoop MO sm (thePage skip w) ([], []) (called (DbGet QUEUE_COLLECTION skip) True w) = (Inr acc, w2)"
    and m: "markAsReceived db (snd acc) w2 = (None, w3)"
    and d: "db_deleteWhere db (fst acc) w3 = (Inr (), w4)"
    and w': "w' = setTimeout (Bound db MO sm (Some (skip + BATCH_SIZE))) BATCH_DELAY_MS w4"
  from sendLoop_Inr [OF s] have acc: "fst acc = map item_id (thePage skip w)" by simp
  from sendLoop_fields [OF s] have f2: "sameStore w w2" by (simp add: sameStore_def called_def)
  note f3 = markAsReceived_fields [OF m]
  from db_deleteWhere_cases [OF d]
  have w4: "w4 = called (DbDeleteWhere (fst acc)) True
          (w3\<lparr>queueColl := filter (\<lambda>q. item_id q \<notin> set (fst acc)) (queueColl w3)\<rparr>)"
    by simp
  show ?thesis using ne f2 f3 acc
    by (simp add: w' w4 setTimeout_def called_def sameStore_def)
qed simp_all

lemma sendQueuedItems_Inl_fields:
  assumes "sendQueuedItems db MO sm skipArg w = (Inl e, w')"
  shows "queueColl w' = queueColl w \<and> timers w' = timers w \<and> userColl w' = userColl w"
  using sendQueuedItems_cases [OF assms]
proof (elim disjE conjE exE)
  fix e'
  assume "sendLoop MO sm (thePage (case skipArg of None \<Rightarrow> 0 | Some s \<Rightarrow> s) w) ([], [])
      (called (DbGet QUEUE_COLLECTION (case skipArg of None \<Rightarrow> 0 | Some s \<Rightarrow> s)) True w) = (Inl e', w')"
  from sendLoop_fields [OF this] show ?thesis by (simp add: sameStore_def called_def)
next
  fix acc w2 e'
  assume s: "sendLoop MO sm (thePage (case skipArg of None \<Rightarrow> 0 | Some s \<Rightarrow> s) w) ([], [])
      (called (DbGet QUEUE_COLLECTION (case skipArg of None \<Rightarrow> 0 | Some s \<Rightarrow> s)) True w) = (Inr acc, w2)"
    and m: "markAsReceived db (snd acc) w2 = (Some e', w')"
  from sendLoop_fields [OF s] markAsReceived_fields [OF m] show ?thesis
    by (simp add: sameStore_def called_def)
next
  fix acc w2 w3 e'
  assume s: "sendLoop MO sm (thePage (case skipArg of None \<Rightarrow> 0 | Some s \<Rightarrow> s) w) ([], [])
      (called (DbGet QUEUE_COLLECTION (case skipArg of None \<Rightarrow> 0 | Some s \<Rightarrow> s)) True w) = (Inr acc, w2)"
    and m: "markAsReceived db (snd acc) w2 = (None, w3)"
    and d: "db_deleteWhere db (fst acc) w3 = (Inl e', w')"
  from db_deleteWhere_cases [OF d] have "w' = called (DbDeleteWhere (fst acc)) False w3" by simp
  with sendLoop_fields [OF s] markAsReceived_fields [OF m] show ?thesis
    by (simp add: sameStore_def called_def)
qed (simp_all add: called_def)

lemma sendQueuedItems_Inr_sends:
  assumes "sendQueuedItems db MO sm skipArg w = (Inr (), w')"
    and "q \<in> set (thePage (case skipArg of None \<Rightarrow> 0 | Some s \<Rightarrow> s) w)"
  shows "(SendMessage (userData q) (alertMessageFor q), True) \<in> set (drop (length (trace w)) (trace w'))
       \<and> (SendMessage (userData q) (carouselMessageFor q), True) \<in> set (drop (length (trace w)) (trace w'))"
proof -
  from sendQueuedItems_Inr_trace [OF assms(1)] obtain rest where
    "trace w' = trace w
       @ (DbGet QUEUE_COLLECTION (case skipArg of None \<Rightarrow> 0 | Some s \<Rightarrow> s), True)
         # succeeded (pageSends (thePage (case skipArg of None \<Rightarrow> 0 | Some s \<Rightarrow> s) w)) @ rest"
    by blast
  with pageSends_members [OF assms(2)] show ?thesis by simp
qed

text \<open>The users to whom a call of \<open>sendQueuedItems\<close> that succeeds has sent something.\<close>

lemma sendQueuedItems_Inr_recipients:
  assumes "sendQueuedItems db MO sm skipArg w = (Inr (), w')"
  shows "recipients (trace w') = recipients (trace w)
           @ recipients (succeeded (pageSends (thePage (case skipArg of None \<Rightarrow> 0 | Some s \<Rightarrow> s) w)))"
proof -
  from sendQueuedItems_Inr_trace [OF assms] obtain rest where
    "trace w' = trace w
       @ (DbGet QUEUE_COLLECTION (case skipArg of None \<Rightarrow> 0 | Some s \<Rightarrow> s), True)
         # succeeded (pageSends (thePage (case skipArg of None \<Rightarrow> 0 | Some s \<Rightarrow> s) w)) @ rest"
    and "list_all (\<lambda>ev. \<not> isSend ev) rest"
    by blast
  then show ?thesis
    using recipients_no_send [of rest]
    by (simp add: recipients_append) (simp add: recipients_def)
qed

text \<open>
  The continuation that \<open>queueBreakingNewsItems\<close> leaves behind reads the queue and then
  returns or fails; it writes nothing and sets no timer.
\<close>

lemma sendQueuedItems_JSNumber:
  assumes "sendQueuedItems db (JSNumber n) sm skipArg w = (r, w')"
  shows "sameStore w w'"
  using sendQueuedItems_cases [OF assms]
  by (elim disjE conjE exE) (auto simp add: sendLoop_JSNumber)


lemma sendQueuedItems_reliable_open:
  "fst (sendQueuedItems reliableStore MessageObject (Some openChannel) skipArg w) = Inr ()"
proof -
  obtain r w' where run: "sendQueuedItems reliableStore MessageObject (Some openChannel) skipArg w = (r, w')"
    by force
  from sendQueuedItems_cases [OF run] have "r = Inr ()"
  proof (elim disjE conjE exE)
    assume "\<not> storeOk reliableStore (trace w)
        (DbGet QUEUE_COLLECTION (case skipArg of None \<Rightarrow> 0 | Some s \<Rightarrow> s))"
    then show ?thesis by (simp add: reliableStore_def)
  next
    fix e
    assume "sendLoop MessageObject (Some openChannel)
        (thePage (case skipArg of None \<Rightarrow> 0 | Some s \<Rightarrow> s) w) ([], [])
        (called (DbGet QUEUE_COLLECTION (case skipArg of None \<Rightarrow> 0 | Some s \<Rightarrow> s)) True w) = (Inl e, w')"
    with sendLoop_open [of "thePage (case skipArg of None \<Rightarrow> 0 | Some s \<Rightarrow> s) w" "[]" "[]"
        "called (DbGet QUEUE_COLLECTION (case skipArg of None \<Rightarrow> 0 | Some s \<Rightarrow> s)) True w"]
    show ?thesis by simp
  next
    fix acc w2 e
    assume "markAsReceived reliableStore (snd acc) w2 = (Some e, w')"
    with markAsReceived_reliable [of "snd acc" w2] show ?thesis by simp
  next
    fix acc w2 w3 e
    assume "db_deleteWhere reliableStore (fst acc) w3 = (Inl e, w')"
    then show ?thesis by (simp add: db_deleteWhere_def reliableStore_def Let_def)
  qed simp_all
  with run show ?thesis by simp
qed

section \<open>One call of the Selector\<close>

lemma sort_key_head_least:
  assumes "sort_key f xs = a # rest"
  shows "a \<in> set xs \<and> (\<forall>x \<in> set xs. f a \<le> f x)"
proof -
  have "set (a # rest) = set xs" using assms set_sort [of f xs] by simp
  moreover have "sorted (map f (a # rest))" using assms sorted_sort_key [of f xs] by simp
  ultimately show ?thesis by auto
qed

lemma first_selects:
  "selects recUser docs (case sort_key articleDate (filter (conditions recUser) docs) of [] \<Rightarrow> None | r # _ \<Rightarrow> Some r)"
proof (cases "sort_key articleDate (filter (conditions recUser) docs)")
  case Nil
  then have "filter (conditions recUser) docs = []"
    using length_sort [of articleDate "filter (conditions recUser) docs"] by simp
  then show ?thesis using Nil by (auto simp add: selects_def filter_empty_conv)
next
  case (Cons a rest)
  from sort_key_head_least [OF Cons] show ?thesis using Cons by (auto simp add: selects_def)
qed

lemma selects_conditions:
  "selects recUser docs (Some a) \<Longrightarrow>
     a \<in> set docs \<and> user_id recUser \<notin> set (receivedByUsers a)
     \<and> profile_created recUser < articleDate a \<and> isPublished a \<noteq> Some False
     \<and> isPriority a = Some True"
  by (simp add: selects_def conditions_def)

lemma getNextBreakingNewsForUser_cases:
  "getNextBreakingNewsForUser db recUser w = (r, w') \<Longrightarrow>
     (r = Inl StoreError \<and> w' = called (DbGetArticle (user_id recUser)) False w
        \<and> \<not> storeOk db (trace w) (DbGetArticle (user_id recUser)))
   \<or> (\<exists>pick. r = Inr pick \<and> selects recUser (articleColl w) pick
         \<and> w' = called (DbGetArticle (user_id recUser)) True w)"
  using first_selects [of recUser "articleColl w"]
  by (auto simp add: getNextBreakingNewsForUser_def db_get_first_def split: if_splits)

text \<open>One iteration of the queueing loop, by cases.\<close>

lemma queueLoop_Cons_cases:
  assumes "queueLoop db (recUser # rest) w = (r, w')"
  shows "(r = Inl StoreError \<and> w' = called (DbGetArticle (user_id recUser)) False w
            \<and> \<not> storeOk db (trace w) (DbGetArticle (user_id recUser)))
       \<or> (selects recUser (articleColl w) None
            \<and> queueLoop db rest (called (DbGetArticle (user_id recUser)) True w) = (r, w'))
       \<or> (\<exists>a. selects recUser (articleColl w) (Some a) \<and> r = Inl StoreError
            \<and> w' = called (DbInsert (user_id recUser) (article_id a)) False
                     (called (DbGetArticle (user_id recUser)) True w)
            \<and> \<not> storeOk db (trace w @ [(DbGetArticle (user_id recUser), True)])
                  (DbInsert (user_id recUser) (article_id a)))
       \<or> (\<exists>a. selects recUser (articleColl w) (Some a)
            \<and> queueLoop db rest
                 (called (DbInsert (user_id recUser) (article_id a)) True
                    ((called (DbGetArticle (user_id recUser)) True w)
                       \<lparr>queueColl := queueColl w @
                          [\<lparr>item_id = nextId w, userData = recUser, articleData = a, addedDate = clock w\<rparr>],
                        nextId := Suc (nextId w), clock := Suc (clock w)\<rparr>)) = (r, w'))"
proof -
  obtain r1 w1 where g: "getNextBreakingNewsForUser db recUser w = (r1, w1)" by force
  from getNextBreakingNewsForUser_cases [OF g] show ?thesis
  proof (elim disjE conjE exE)
    assume "r1 = Inl StoreError" "w1 = called (DbGetArticle (user_id recUser)) False w"
      "\<not> storeOk db (trace w) (DbGetArticle (user_id recUser))"
    with assms g show ?thesis by simp
  next
    fix pick assume p: "r1 = Inr pick" "selects recUser (articleColl w) pick"
      "w1 = called (DbGetArticle (user_id recUser)) True w"
    show ?thesis
    proof (cases pick)
      case None
      with assms g p show ?thesis by simp
    next
      case (Some a)
      obtain r2 w2 where i: "db_insert db recUser a w1 = (r2, w2)" by force
      from db_insert_cases [OF i] assms g p Some i show ?thesis
        by (auto simp add: called_def)
    qed
  qed
qed

lemma queueLoop_fields:
  "queueLoop db us w = (r, w') \<Longrightarrow>
     userColl w' = userColl w \<and> articleColl w' = articleColl w \<and> timers w' = timers w
     \<and> unhandled w' = unhandled w"
proof (induction us arbitrary: w)
  case Nil
  then show ?case by simp
next
  case (Cons u us)
  from queueLoop_Cons_cases [OF Cons.prems] show ?case
  proof (elim disjE conjE exE)
    assume "queueLoop db us (called (DbGetArticle (user_id u)) True w) = (r, w')"
    from Cons.IH [OF this] show ?thesis by (simp add: called_def)
  next
    fix a
    assume "queueLoop db us
                 (called (DbInsert (user_id u) (article_id a)) True
                    ((called (DbGetArticle (user_id u)) True w)
                       \<lparr>queueColl := queueColl w @
                          [\<lparr>item_id = nextId w, userData = u, articleData = a, addedDate = clock w\<rparr>],
                        nextId := Suc (nextId w), clock := Suc (clock w)\<rparr>)) = (r, w')"
    from Cons.IH [OF this] show ?thesis by (simp add: called_def)
  qed (simp_all add: called_def)
qed

lemma queueLoop_Inr:
  "queueLoop db us w = (Inr (), w') \<Longrightarrow>
     \<exists>picks. list_all2 (\<lambda>u r. selects u (articleColl w) r) us picks
       \<and> map (\<lambda>q. (userData q, articleData q)) (queueColl w')
           = map (\<lambda>q. (userData q, articleData q)) (queueColl w) @ obligations us picks"
proof (induction us arbitrary: w)
  case Nil
  then show ?case by (simp add: obligations_def)
next
  case (Cons u us)
  from queueLoop_Cons_cases [OF Cons.prems] show ?case
  proof (elim disjE conjE exE)
    assume s: "selects u (articleColl w) None"
      and l: "queueLoop db us (called (DbGetArticle (user_id u)) True w) = (Inr (), w')"
    from Cons.IH [OF l] obtain picks where
      "list_all2 (\<lambda>u r. selects u (articleColl w) r) us picks"
      "map (\<lambda>q. (userData q, articleData q)) (queueColl w')
           = map (\<lambda>q. (userData q, articleData q)) (queueColl w) @ obligations us picks"
      by (auto simp add: called_def)
    with s show ?thesis
      by (intro exI [of _ "None # picks"]) (simp add: obligations_def)
  next
    fix a
    assume s: "selects u (articleColl w) (Some a)"
      and l: "queueLoop db us
                 (called (DbInsert (user_id u) (article_id a)) True
                    ((called (DbGetArticle (user_id u)) True w)
                       \<lparr>queueColl := queueColl w @
                          [\<lparr>item_id = nextId w, userData = u, articleData = a, addedDate = clock w\<rparr>],
                        nextId := Suc (nextId w), clock := Suc (clock w)\<rparr>)) = (Inr (), w')"
    from Cons.IH [OF l] obtain picks where
      "list_all2 (\<lambda>u r. selects u (articleColl w) r) us picks"
      "map (\<lambda>q. (userData q, articleData q)) (queueColl w')
           = map (\<lambda>q. (userData q, articleData q)) (queueColl w) @ (u, a) # obligations us picks"
      by (auto simp add: called_def)
    with s show ?thesis
      by (intro exI [of _ "Some a # picks"]) (simp add: obligations_def)
  qed simp_all
qed

lemma queueLoop_reliable: "fst (queueLoop reliableStore us w) = Inr ()"
proof (induction us arbitrary: w)
  case Nil
  then show ?case by simp
next
  case (Cons u us)
  obtain r w' where l: "queueLoop reliableStore (u # us) w = (r, w')" by force
  from queueLoop_Cons_cases [OF l] have "r = Inr ()"
  proof (elim disjE conjE exE)
    assume "queueLoop reliableStore us (called (DbGetArticle (user_id u)) True w) = (r, w')"
    with Cons.IH [of "called (DbGetArticle (user_id u)) True w"] show ?thesis by simp
  next
    fix a
    assume "queueLoop reliableStore us
                 (called (DbInsert (user_id u) (article_id a)) True
                    ((called (DbGetArticle (user_id u)) True w)
                       \<lparr>queueColl := queueColl w @
                          [\<lparr>item_id = nextId w, userData = u, articleData = a, addedDate = clock w\<rparr>],
                        nextId := Suc (nextId w), clock := Suc (clock w)\<rparr>)) = (r, w')"
    with Cons.IH [of "called (DbInsert (user_id u) (article_id a)) True
                    ((called (DbGetArticle (user_id u)) True w)
                       \<lparr>queueColl := queueColl w @
                          [\<lparr>item_id = nextId w, userData = u, articleData = a, addedDate = clock w\<rparr>],
                        nextId := Suc (nextId w), clock := Suc (clock w)\<rparr>)"]
    show ?thesis by simp
  qed (simp_all add: reliableStore_def)
  with l show ?case by simp
qed

lemma getBatchOfUsers_cases:
  "getBatchOfUsers db skip w = (r, w') \<Longrightarrow>
     (r = Inl StoreError \<and> w' = called (DbGet ''User'' skip) False w
        \<and> \<not> storeOk db (trace w) (DbGet ''User'' skip))
   \<or> (r = Inr (usersPage skip w) \<and> w' = called (DbGet ''User'' skip) True w)"
  by (auto simp add: getBatchOfUsers_def db_get_def store_query_def usersPage_def Let_def
      split: if_splits)

lemma queueBreakingNewsItems_cases:
  assumes "queueBreakingNewsItems db skipArg w = (r, w')"
  defines "skip \<equiv> (case skipArg of None \<Rightarrow> 0 | Some s \<Rightarrow> s)"
  defines "w1 \<equiv> called (DbGet ''User'' skip) True w"
  shows "(r = Inl StoreError \<and> w' = called (DbGet ''User'' skip) False w
            \<and> \<not> storeOk db (trace w) (DbGet ''User'' skip))
       \<or> (usersPage skip w = [] \<and> r = Inr () \<and> w' = w1)
       \<or> (usersPage skip w \<noteq> [] \<and> (\<exists>e. r = Inl e \<and> queueLoop db (usersPage skip w) w1 = (Inl e, w')))
       \<or> (usersPage skip w \<noteq> [] \<and> r = Inr () \<and> (\<exists>w2. queueLoop db (usersPage skip w) w1 = (Inr (), w2)
             \<and> w' = setTimeout (Bound db (JSNumber (skip + BATCH_SIZE)) None None) BATCH_DELAY_MS w2))"
proof -
  obtain r0 w0 where g: "getBatchOfUsers db skip w = (r0, w0)" by force
  from getBatchOfUsers_cases [OF g] show ?thesis
  proof (elim disjE conjE)
    assume "r0 = Inl StoreError" "w0 = called (DbGet ''User'' skip) False w"
      "\<not> storeOk db (trace w) (DbGet ''User'' skip)"
    with assms(1) g show ?thesis by (simp add: queueBreakingNewsItems_def skip_def)
  next
    assume a: "r0 = Inr (usersPage skip w)" "w0 = called (DbGet ''User'' skip) True w"
    show ?thesis
    proof (cases "usersPage skip w = []")
      case True
      with assms(1) g a show ?thesis by (simp add: queueBreakingNewsItems_def skip_def w1_def)
    next
      case False
      with assms(1) g a show ?thesis
        unfolding queueBreakingNewsItems_def skip_def [symmetric] w1_def [symmetric] Let_def
        by (auto simp add: w1_def split: sum.splits prod.splits)
    qed
  qed
qed

lemma queueBreakingNewsItems_fields:
  assumes "queueBreakingNewsItems db skipArg w = (r, w')"
  shows "userColl w' = userColl w \<and> articleColl w' = articleColl w \<and> unhandled w' = unhandled w
       \<and> (timers w' = timers w
          \<or> timers w' = timers w @ [Bound db (JSNumber ((case skipArg of None \<Rightarrow> 0 | Some s \<Rightarrow> s) + BATCH_SIZE)) None None])"
  using queueBreakingNewsItems_cases [OF assms]
proof (elim disjE conjE exE)
  fix e
  assume "queueLoop db (usersPage (case skipArg of None \<Rightarrow> 0 | Some s \<Rightarrow> s) w)
            (called (DbGet ''User'' (case skipArg of None \<Rightarrow> 0 | Some s \<Rightarrow> s)) True w) = (Inl e, w')"
  from queueLoop_fields [OF this] show ?thesis by (simp add: called_def)
next
  fix w2
  assume "queueLoop db (usersPage (case skipArg of None \<Rightarrow> 0 | Some s \<Rightarrow> s) w)
            (called (DbGet ''User'' (case skipArg of None \<Rightarrow> 0 | Some s \<Rightarrow> s)) True w) = (Inr (), w2)"
    and "w' = setTimeout (Bound db (JSNumber ((case skipArg of None \<Rightarrow> 0 | Some s \<Rightarrow> s) + BATCH_SIZE)) None None) BATCH_DELAY_MS w2"
  with queueLoop_fields [of db _ _ "Inr ()" w2] show ?thesis
    by (simp add: called_def setTimeout_def)
qed (simp_all add: called_def)

lemma queueBreakingNewsItems_Inr:
  assumes "queueBreakingNewsItems db skipArg w = (Inr (), w')"
  shows "\<exists>picks. list_all2 (\<lambda>u r. selects u (articleColl w) r)
                    (usersPage (case skipArg of None \<Rightarrow> 0 | Some s \<Rightarrow> s) w) picks
           \<and> map (\<lambda>q. (userData q, articleData q)) (queueColl w')
               = map (\<lambda>q. (userData q, articleData q)) (queueColl w)
                 @ obligations (usersPage (case skipArg of None \<Rightarrow> 0 | Some s \<Rightarrow> s) w) picks"
  using queueBreakingNewsItems_cases [OF assms]
proof (elim disjE conjE exE)
  assume "usersPage (case skipArg of None \<Rightarrow> 0 | Some s \<Rightarrow> s) w = []"
    and "w' = called (DbGet ''User'' (case skipArg of None \<Rightarrow> 0 | Some s \<Rightarrow> s)) True w"
  then show ?thesis by (simp add: obligations_def called_def)
next
  fix w2
  assume l: "queueLoop db (usersPage (case skipArg of None \<Rightarrow> 0 | Some s \<Rightarrow> s) w)
            (called (DbGet ''User'' (case skipArg of None \<Rightarrow> 0 | Some s \<Rightarrow> s)) True w) = (Inr (), w2)"
    and w': "w' = setTimeout (Bound db (JSNumber ((case skipArg of None \<Rightarrow> 0 | Some s \<Rightarrow> s) + BATCH_SIZE)) None None) BATCH_DELAY_MS w2"
  from queueLoop_Inr [OF l] w' show ?thesis by (simp add: called_def setTimeout_def)
qed simp_all

lemma queueBreakingNewsItems_reliable: "fst (queueBreakingNewsItems reliableStore skipArg w) = Inr ()"
proof -
  obtain r w' where q: "queueBreakingNewsItems reliableStore skipArg w = (r, w')" by force
  from queueBreakingNewsItems_cases [OF q] have "r = Inr ()"
  proof (elim disjE conjE exE)
    fix e
    assume "queueLoop reliableStore (usersPage (case skipArg of None \<Rightarrow> 0 | Some s \<Rightarrow> s) w)
        (called (DbGet ''User'' (case skipArg of None \<Rightarrow> 0 | Some s \<Rightarrow> s)) True w) = (Inl e, w')"
    with queueLoop_reliable [of "usersPage (case skipArg of None \<Rightarrow> 0 | Some s \<Rightarrow> s) w"
        "called (DbGet ''User'' (case skipArg of None \<Rightarrow> 0 | Some s \<Rightarrow> s)) True w"]
    show ?thesis by simp
  qed (simp_all add: reliableStore_def)
  with q show ?thesis by simp
qed

section \<open>Timers\<close>

lemma runTask_JSNumber_fields:
  "userColl (runTask (Bound db (JSNumber n) sm skipArg) w) = userColl w
   \<and> articleColl (runTask (Bound db (JSNumber n) sm skipArg) w) = articleColl w
   \<and> queueColl (runTask (Bound db (JSNumber n) sm skipArg) w) = queueColl w
   \<and> timers (runTask (Bound db (JSNumber n) sm skipArg) w) = timers w"
proof -
  obtain r w' where s: "sendQueuedItems db (JSNumber n) sm skipArg w = (r, w')" by force
  from sendQueuedItems_JSNumber [OF s] s show ?thesis
    by (cases r) (simp_all add: sameStore_def)
qed

lemma fire_on_short_queue:
  assumes "timers w = [Bound reliableStore MessageObject (Some openChannel) (Some skip)]"
    and "length (queueColl w) \<le> skip"
  shows "\<exists>w'. runTimers 1 w = Some w' \<and> queueColl w' = queueColl w \<and> timers w' = []
           \<and> unhandled w' = unhandled w \<and> recipients (trace w') = recipients (trace w)"
proof -
  let ?w0 = "w\<lparr>timers := []\<rparr>"
  obtain r w' where run: "sendQueuedItems reliableStore MessageObject (Some openChannel) (Some skip) ?w0 = (r, w')"
    by force
  with sendQueuedItems_reliable_open [of "Some skip" ?w0] have r: "r = Inr ()" by simp
  have "thePage skip ?w0 = []" using assms(2) by (simp add: thePage_short)
  with sendQueuedItems_Inr_effect [OF run [unfolded r]]
    sendQueuedItems_Inr_recipients [OF run [unfolded r]]
  have "queueColl w' = queueColl w \<and> timers w' = [] \<and> unhandled w' = unhandled w
      \<and> recipients (trace w') = recipients (trace w)"
    by (simp add: succeeded_def pageSends_def recipients_def)
  moreover have "runTimers 1 w = runTimers 0 w'"
    using assms(1) run r by (simp add: One_nat_def)
  ultimately show ?thesis by simp
qed

text \<open>
  The timer of the Selector on a queue that is not empty: \<open>MessageObject.outgoing\<close> is called
  on a number, the call throws, and nothing has been done.
\<close>

lemma fire_selector_timer:
  assumes "timers w = [Bound reliableStore (JSNumber n) None None]" and "queueColl w \<noteq> []"
  shows "\<exists>w'. runTimers 1 w = Some w' \<and> queueColl w' = queueColl w \<and> timers w' = []
           \<and> unhandled w' = unhandled w @ [TypeError]"
proof -
  let ?w0 = "w\<lparr>timers := []\<rparr>"
  obtain r w' where run: "sendQueuedItems reliableStore (JSNumber n) None None ?w0 = (r, w')"
    by force
  have ne: "thePage 0 ?w0 \<noteq> []" using assms(2) by (simp add: thePage_nonempty)
  from sendQueuedItems_cases [OF run] ne have r: "r = Inl TypeError"
    by (elim disjE conjE exE) (simp_all add: reliableStore_def sendLoop_JSNumber)
  from sendQueuedItems_JSNumber [OF run] have "sameStore ?w0 w'" .
  moreover have "runTimers 1 w = runTimers 0 (w'\<lparr>unhandled := unhandled w' @ [TypeError]\<rparr>)"
    using assms(1) run r by (simp add: One_nat_def)
  ultimately show ?thesis by (simp add: sameStore_def)
qed

text \<open>A timer that fires either sets no timer, or has shortened the queue and sets one.\<close>

lemma runTask_measure:
  "2 * length (queueColl (runTask t w)) + length (timers (runTask t w))
     \<le> 2 * length (queueColl w) + length (timers w)"
proof -
  obtain db MO sm skipArg where t: "t = Bound db MO sm skipArg" by (cases t)
  obtain r w' where run: "sendQueuedItems db MO sm skipArg w = (r, w')" by force
  show ?thesis
  proof (cases r)
    case (Inl e)
    with sendQueuedItems_Inl_fields [OF run [unfolded Inl]] t run show ?thesis by simp
  next
    case (Inr u)
    note eff = sendQueuedItems_Inr_effect [OF run [unfolded Inr, simplified]]
    show ?thesis
    proof (cases "thePage (case skipArg of None \<Rightarrow> 0 | Some s \<Rightarrow> s) w = []")
      case True
      with eff t run Inr show ?thesis by simp
    next
      case False
      from page_deleted_shrinks [OF False] eff False t run Inr show ?thesis by simp
    qed
  qed
qed

text \<open>
  The event loop always comes to an end: whatever the state, the store and the channel do,
  firing timers stops with no timer pending, after at most twice the length of the queue plus
  the number of pending timers.
\<close>

lemma runTimers_enough_fuel:
  "2 * length (queueColl w) + length (timers w) \<le> n \<Longrightarrow>
     \<exists>w'. runTimers n w = Some w' \<and> timers w' = []"
proof (induction n arbitrary: w)
  case 0
  then show ?case by simp
next
  case (Suc n)
  show ?case
  proof (cases "timers w")
    case Nil
    then show ?thesis by simp
  next
    case (Cons t ts)
    let ?w1 = "runTask t (w\<lparr>timers := ts\<rparr>)"
    from runTask_measure [of t "w\<lparr>timers := ts\<rparr>"] Suc.prems Cons
    have "2 * length (queueColl ?w1) + length (timers ?w1) \<le> n" by simp
    from Suc.IH [OF this] Cons show ?thesis by (simp del: runTask.simps)
  qed
qed

section \<open>Successive calls of the Dispatcher\<close>

lemma drain_call:
  obtains w1 where "sendQueuedItems reliableStore MessageObject (Some openChannel) None w = (Inr (), w1)"
proof -
  obtain r w1 where "sendQueuedItems reliableStore MessageObject (Some openChannel) None w = (r, w1)"
    by force
  with sendQueuedItems_reliable_open [of None w] that show ?thesis by simp
qed

lemma drainCalls_keeps_trace: "set (trace w) \<subseteq> set (trace (drainCalls n w))"
proof (induction n arbitrary: w)
  case 0
  then show ?case by simp
next
  case (Suc n)
  obtain w1 where c: "sendQueuedItems reliableStore MessageObject (Some openChannel) None w = (Inr (), w1)"
    by (rule drain_call)
  from sendQueuedItems_Inr_trace [OF c] have "set (trace w) \<subseteq> set (trace w1)" by auto
  with Suc.IH [of w1] c show ?case by auto
qed

text \<open>
  With unique identifiers in the queue, every queued obligation is dispatched after enough
  calls at \<open>skip = 0\<close>: a call dispatches the obligations of the first page and removes
  exactly these.
\<close>

lemma drainCalls_dispatches:
  assumes "distinct (map item_id (queueColl w))" and "q \<in> set (queueColl w)"
  shows "\<exists>n. (SendMessage (userData q) (alertMessageFor q), True) \<in> set (trace (drainCalls n w))
           \<and> (SendMessage (userData q) (carouselMessageFor q), True) \<in> set (trace (drainCalls n w))"
  using assms
proof (induction "length (queueColl w)" arbitrary: w rule: less_induct)
  case less
  obtain w1 where c: "sendQueuedItems reliableStore MessageObject (Some openChannel) None w = (Inr (), w1)"
    by (rule drain_call)
  show ?case
  proof (cases "q \<in> set (thePage 0 w)")
    case True
    with sendQueuedItems_Inr_sends [OF c, of q]
    have "(SendMessage (userData q) (alertMessageFor q), True) \<in> set (trace w1)
        \<and> (SendMessage (userData q) (carouselMessageFor q), True) \<in> set (trace w1)"
      by (auto dest: in_set_dropD)
    with c have "(SendMessage (userData q) (alertMessageFor q), True) \<in> set (trace (drainCalls 1 w))
        \<and> (SendMessage (userData q) (carouselMessageFor q), True) \<in> set (trace (drainCalls 1 w))"
      by (simp add: One_nat_def)
    then show ?thesis by blast
  next
    case False
    from less.prems(2) have "queueColl w \<noteq> []" by auto
    then have ne: "thePage 0 w \<noteq> []" by (rule thePage_nonempty)
    from sendQueuedItems_Inr_effect [OF c]
    have q1: "queueColl w1 = filter (\<lambda>x. item_id x \<notin> set (map item_id (thePage 0 w))) (queueColl w)"
      by simp
    have "item_id q \<notin> set (map item_id (thePage 0 w))"
    proof
      assume "item_id q \<in> set (map item_id (thePage 0 w))"
      then obtain p where p: "p \<in> set (thePage 0 w)" "item_id p = item_id q" by auto
      with thePage_subset have "p \<in> set (queueColl w)" by blast
      with less.prems p(2) have "p = q" by (auto simp add: distinct_map inj_on_def)
      with p(1) False show False by simp
    qed
    with less.prems(2) q1 have in1: "q \<in> set (queueColl w1)" by simp
    from less.prems(1) q1 have d1: "distinct (map item_id (queueColl w1))"
      by (simp add: distinct_map_filter)
    from page_deleted_shrinks [OF ne] q1 have "length (queueColl w1) < length (queueColl w)" by simp
    from less.hyps [OF this d1 in1] obtain n where
      "(SendMessage (userData q) (alertMessageFor q), True) \<in> set (trace (drainCalls n w1))
        \<and> (SendMessage (userData q) (carouselMessageFor q), True) \<in> set (trace (drainCalls n w1))"
      by blast
    with c have "(SendMessage (userData q) (alertMessageFor q), True) \<in> set (trace (drainCalls (Suc n) w))
        \<and> (SendMessage (userData q) (carouselMessageFor q), True) \<in> set (trace (drainCalls (Suc n) w))"
      by simp
    then show ?thesis by blast
  qed
qed

lemma insort_key_map_inv:
  assumes "\<And>x. k (g x) = k x"
  shows "insort_key k (g x) (map g ys) = map g (insort_key k x ys)"
  by (induction ys) (simp_all add: assms)

lemma sort_key_map_inv:
  assumes "\<And>x. k (g x) = k x"
  shows "sort_key k (map g xs) = map g (sort_key k xs)"
  by (induction xs) (simp_all add: insort_key_map_inv [of k g, OF assms])

lemma thePage_withFlags:
  "thePage skip (w\<lparr>queueColl := map (withFlags f) (queueColl w)\<rparr>) = map (withFlags f) (thePage skip w)"
proof -
  have "sort_key addedDate (map (withFlags f) (queueColl w))
      = map (withFlags f) (sort_key addedDate (queueColl w))"
    by (rule sort_key_map_inv) (simp add: withFlags_def)
  then show ?thesis by (simp add: thePage_def take_map drop_map)
qed

section \<open>The generated inputs\<close>

lemma sorted_items: "sort_key addedDate (map mkItem [m..<n]) = map mkItem [m..<n]"
proof -
  have "map addedDate (map mkItem [m..<n]) = [m..<n]"
    by (simp add: mkItem_def comp_def)
  then have "sorted (map addedDate (map mkItem [m..<n]))" by simp
  then show ?thesis by (rule sort_key_id_if_sorted)
qed

lemma take_upt_min: "take k [0..<n] = [0..<min k n]"
proof (cases "k \<le> n")
  case True
  then show ?thesis by (simp add: min_def)
next
  case False
  then show ?thesis by (simp add: min_def)
qed

lemma thePage_bigQueue:
  "thePage 0 (bigQueue n) = map mkItem [0..<min BATCH_SIZE n]"
  by (simp add: thePage_def bigQueue_def emptyWorld_def sorted_items take_map take_upt_min)

lemma filter_items:
  "filter (\<lambda>q. item_id q \<notin> set (map item_id (map mkItem [0..<k]))) (map mkItem [0..<n])
     = map mkItem [k..<n]"
proof -
  have ids: "map item_id (map mkItem [0..<k]) = [0..<k]" by (simp add: mkItem_def comp_def)
  have "filter (\<lambda>q. item_id q \<notin> set [0..<k]) (map mkItem [0..<n])
      = map mkItem (filter (\<lambda>i. \<not> i < k) [0..<n])"
    by (simp add: filter_map comp_def mkItem_def)
  also have "filter (\<lambda>i. \<not> i < k) [0..<n] = [k..<n]"
  proof (induction n)
    case 0
    then show ?case by simp
  next
    case (Suc n)
    then show ?case by (cases "k \<le> n") auto
  qed
  finally show ?thesis by (simp only: ids)
qed

lemma recipients_items:
  "recipients (succeeded (pageSends (map mkItem ks))) = concat (map (\<lambda>i. [i, i]) ks)"
  by (induction ks) (simp_all add: recipients_def succeeded_def pageSends_def mkItem_def mkUser_def)

lemma bigQueue_first_page:
  assumes "BATCH_SIZE \<le> n"
  shows "fst (sendQueuedItems reliableStore MessageObject (Some openChannel) None (bigQueue n)) = Inr ()
       \<and> queueColl (snd (sendQueuedItems reliableStore MessageObject (Some openChannel) None (bigQueue n)))
           = map mkItem [BATCH_SIZE..<n]
       \<and> timers (snd (sendQueuedItems reliableStore MessageObject (Some openChannel) None (bigQueue n)))
           = [Bound reliableStore MessageObject (Some openChannel) (Some BATCH_SIZE)]
       \<and> unhandled (snd (sendQueuedItems reliableStore MessageObject (Some openChannel) None (bigQueue n))) = []
       \<and> recipients (trace (snd (sendQueuedItems reliableStore MessageObject (Some openChannel) None (bigQueue n))))
           = concat (map (\<lambda>i. [i, i]) [0..<BATCH_SIZE])"
proof -
  obtain r w1 where run: "sendQueuedItems reliableStore MessageObject (Some openChannel) None (bigQueue n) = (r, w1)"
    by force
  with sendQueuedItems_reliable_open [of None "bigQueue n"] have r: "r = Inr ()" by simp
  have B: "0 < BATCH_SIZE" by (simp add: BATCH_SIZE_def)
  have page: "thePage 0 (bigQueue n) = map mkItem [0..<BATCH_SIZE]"
    using assms by (simp add: thePage_bigQueue min_def)
  with B have ne: "thePage 0 (bigQueue n) \<noteq> []" by simp
  note eff = sendQueuedItems_Inr_effect [OF run [unfolded r]]
  have qs: "queueColl (bigQueue n) = map mkItem [0..<n]" "timers (bigQueue n) = []"
    "unhandled (bigQueue n) = []"
    by (simp_all add: bigQueue_def emptyWorld_def)
  from eff have "queueColl w1
      = filter (\<lambda>q. item_id q \<notin> set (map item_id (thePage 0 (bigQueue n)))) (queueColl (bigQueue n))"
    by simp
  then have q: "queueColl w1 = map mkItem [BATCH_SIZE..<n]"
    unfolding page qs filter_items .
  from eff ne qs have "timers w1 = [Bound reliableStore MessageObject (Some openChannel) (Some BATCH_SIZE)]"
    and "unhandled w1 = []"
    by simp_all
  moreover have "recipients (trace w1) = concat (map (\<lambda>i. [i, i]) [0..<BATCH_SIZE])"
    using sendQueuedItems_Inr_recipients [OF run [unfolded r]]
    by (simp add: page recipients_items) (simp add: bigQueue_def emptyWorld_def recipients_def)
  ultimately show ?thesis using run r q by simp
qed

lemma sorted_users: "sort_key user_id (map mkUser [m..<n]) = map mkUser [m..<n]"
proof -
  have "map user_id (map mkUser [m..<n]) = [m..<n]"
    by (simp add: mkUser_def comp_def)
  then have "sorted (map user_id (map mkUser [m..<n]))" by simp
  then show ?thesis by (rule sort_key_id_if_sorted)
qed

lemma usersPage_bigAudience:
  "usersPage 0 (bigAudience n) = map mkUser [0..<min BATCH_SIZE n]"
proof -
  have "filter (\<lambda>u. bot_disabled u \<noteq> Some True) (map mkUser [0..<n]) = map mkUser [0..<n]"
    by (simp add: filter_map comp_def mkUser_def)
  then show ?thesis
    by (simp add: usersPage_def bigAudience_def emptyWorld_def sorted_users take_map take_upt_min)
qed

lemma news_for_everyone: "conditions (mkUser i) news"
  by (simp add: conditions_def mkUser_def news_def)

lemma obligations_news:
  "list_all2 (\<lambda>u r. selects u [news] r) (map mkUser is) picks \<Longrightarrow>
     map fst (obligations (map mkUser is) picks) = map mkUser is"
proof (induction "is" arbitrary: picks)
  case Nil
  then show ?case by (simp add: obligations_def)
next
  case (Cons i "is")
  from Cons.prems obtain r rest where picks: "picks = r # rest"
    and r: "selects (mkUser i) [news] r"
    and rest: "list_all2 (\<lambda>u r. selects u [news] r) (map mkUser is) rest"
    by (auto simp add: list_all2_Cons1)
  from r news_for_everyone [of i] obtain a where "r = Some a"
    by (cases r) (auto simp add: selects_def)
  with Cons.IH [OF rest] picks show ?case by (simp add: obligations_def)
qed

section \<open>Functions that run interleaved\<close>









section \<open>The calls that a function records\<close>




















section \<open>A function that runs alone\<close>






section \<open>The small inputs\<close>

lemma threeQueued_refused:
  "sendQueuedItems reliableStore MessageObject (Some refusesSecond) None threeQueued
     = (Inl ChannelError,
        threeQueued\<lparr>trace :=
          [(DbGet QUEUE_COLLECTION 0, True),
           (SendMessage (mkUser 1) (alertMessageFor (mkItem 1)), True),
           (SendMessage (mkUser 1) (carouselMessageFor (mkItem 1)), True),
           (SendMessage (mkUser 2) (alertMessageFor (mkItem 2)), False)]\<rparr>)"
  by (simp add: sendQueuedItems_def getBatchOfQueuedItems_def db_get_def store_query_def
      reliableStore_def threeQueued_def emptyWorld_def mkItem_def mkUser_def BATCH_SIZE_def
      called_def constructBreakingNewMessages_def callSendMessage_def refusesSecond_def
      alertMessageFor_def carouselMessageFor_def)

lemma threeQueued_sent:
  "sendQueuedItems reliableStore MessageObject (Some openChannel) None threeQueued
     = (Inr (),
        threeQueued\<lparr>articleColl := [news\<lparr>receivedByUsers := [1, 2, 3]\<rparr>], queueColl := [],
          timers := [Bound reliableStore MessageObject (Some openChannel) (Some 1000)],
          trace :=
          [(DbGet QUEUE_COLLECTION 0, True),
           (SendMessage (mkUser 1) (alertMessageFor (mkItem 1)), True),
           (SendMessage (mkUser 1) (carouselMessageFor (mkItem 1)), True),
           (SendMessage (mkUser 2) (alertMessageFor (mkItem 2)), True),
           (SendMessage (mkUser 2) (carouselMessageFor (mkItem 2)), True),
           (SendMessage (mkUser 3) (alertMessageFor (mkItem 3)), True),
           (SendMessage (mkUser 3) (carouselMessageFor (mkItem 3)), True),
           (DbUpdate 7 1, True), (DbUpdate 7 2, True), (DbUpdate 7 3, True),
           (DbDeleteWhere [1, 2, 3], True),
           (SetTimeout 1000, True)]\<rparr>)"
  by (simp add: sendQueuedItems_def getBatchOfQueuedItems_def db_get_def store_query_def
      reliableStore_def threeQueued_def emptyWorld_def mkItem_def mkUser_def BATCH_SIZE_def
      BATCH_DELAY_MS_def called_def constructBreakingNewMessages_def callSendMessage_def
      openChannel_def alertMessageFor_def carouselMessageFor_def db_update_def applyUpdate_def
      markReceived_def addToSet_def news_def db_deleteWhere_def setTimeout_def)

lemma thePage_threeQueued: "thePage 0 threeQueued = [mkItem 1, mkItem 2, mkItem 3]"
  by (simp add: thePage_def threeQueued_def emptyWorld_def mkItem_def BATCH_SIZE_def)

lemma newsroom_lookup:
  "getNextBreakingNewsForUser reliableStore alice newsroom
     = (Inr (Some (story 6 20 None (Some True) [2])), called (DbGetArticle 1) True newsroom)"
  by (simp add: getNextBreakingNewsForUser_def db_get_first_def reliableStore_def newsroom_def
      emptyWorld_def conditions_def alice_def story_def)

lemma newsroom_usersPage: "usersPage 0 newsroom = [alice, bob]"
  by (simp add: usersPage_def newsroom_def emptyWorld_def alice_def bob_def carol_def BATCH_SIZE_def)

lemma newsroom_pass:
  "queueBreakingNewsItems reliableStore None newsroom
     = (Inr (),
        newsroom\<lparr>queueColl := [\<lparr>item_id = 0, userData = alice,
                     articleData = story 6 20 None (Some True) [2], addedDate = 0\<rparr>],
          nextId := 1, clock := 1,
          timers := [Bound reliableStore (JSNumber 1000) None None],
          trace := [(DbGet ''User'' 0, True), (DbGetArticle 1, True), (DbInsert 1 6, True),
                    (DbGetArticle 2, True), (SetTimeout 1000, True)]\<rparr>)"
  by (simp add: queueBreakingNewsItems_def getBatchOfUsers_def db_get_def store_query_def
      getNextBreakingNewsForUser_def db_get_first_def db_insert_def reliableStore_def newsroom_def
      emptyWorld_def conditions_def alice_def bob_def carol_def story_def BATCH_SIZE_def
      BATCH_DELAY_MS_def called_def setTimeout_def)

lemma disabledQueued_sent:
  "sendQueuedItems reliableStore MessageObject (Some openChannel) None disabledQueued
     = (Inr (),
        disabledQueued\<lparr>articleColl := [news\<lparr>receivedByUsers := [3]\<rparr>], queueColl := [],
          timers := [Bound reliableStore MessageObject (Some openChannel) (Some 1000)],
          trace :=
          [(DbGet QUEUE_COLLECTION 0, True),
           (SendMessage carol (Outgoing carol (Text ''Breaking news!'')), True),
           (SendMessage carol (carouselMessageFor \<lparr>item_id = 9, userData = carol, articleData = news, addedDate = 0\<rparr>), True),
           (DbUpdate 7 3, True),
           (DbDeleteWhere [9], True),
           (SetTimeout 1000, True)]\<rparr>)"
  by (simp add: sendQueuedItems_def getBatchOfQueuedItems_def db_get_def store_query_def
      reliableStore_def disabledQueued_def emptyWorld_def carol_def BATCH_SIZE_def
      BATCH_DELAY_MS_def called_def constructBreakingNewMessages_def callSendMessage_def
      openChannel_def carouselMessageFor_def db_update_def applyUpdate_def
      markReceived_def addToSet_def news_def db_deleteWhere_def setTimeout_def)



section \<open>The claims\<close>

subsection \<open>Pagination of the Selector\<close>

text \<open>
  C1, at 1001 users, none disabled, each of them owed the same article, with a store that
  never fails: the call visits the first 1000 users and sets a timer; the timer calls
  \<open>sendQueuedItems\<close> with the number 1000 in the place of \<open>MessageObject\<close>, which throws.
  The pass is over, and the user with identifier 1000 has no obligation in the queue.
\<close>

theorem selector_of_1001_visits_1000:
  "mkUser 1000 \<in> set (userColl (bigAudience 1001)) \<and> bot_disabled (mkUser 1000) \<noteq> Some True
   \<and> conditions (mkUser 1000) news \<and> news \<in> set (articleColl (bigAudience 1001))
   \<and> fst (queueBreakingNewsItems reliableStore None (bigAudience 1001)) = Inr ()
   \<and> map userData (queueColl (snd (queueBreakingNewsItems reliableStore None (bigAudience 1001))))
       = map mkUser [0..<BATCH_SIZE]
   \<and> timers (snd (queueBreakingNewsItems reliableStore None (bigAudience 1001)))
       = [Bound reliableStore (JSNumber 1000) None None]
   \<and> map_option (\<lambda>w. map userData (queueColl w))
        (runTimers 1 (snd (queueBreakingNewsItems reliableStore None (bigAudience 1001))))
       = Some (map mkUser [0..<BATCH_SIZE])
   \<and> map_option timers
        (runTimers 1 (snd (queueBreakingNewsItems reliableStore None (bigAudience 1001))))
       = Some []
   \<and> map_option unhandled
        (runTimers 1 (snd (queueBreakingNewsItems reliableStore None (bigAudience 1001))))
       = Some [TypeError]"
proof -
  obtain r w1 where q: "queueBreakingNewsItems reliableStore None (bigAudience 1001) = (r, w1)"
    by force
  with queueBreakingNewsItems_reliable [of None "bigAudience 1001"] have r: "r = Inr ()" by simp
  have page: "usersPage 0 (bigAudience 1001) = map mkUser [0..<BATCH_SIZE]"
    by (simp add: usersPage_bigAudience) (simp add: BATCH_SIZE_def)
  have fields: "articleColl (bigAudience 1001) = [news]" "queueColl (bigAudience 1001) = []"
    "timers (bigAudience 1001) = []" "unhandled (bigAudience 1001) = []"
    by (simp_all add: bigAudience_def emptyWorld_def)
  from queueBreakingNewsItems_Inr [OF q [unfolded r]] obtain picks where
    picks: "list_all2 (\<lambda>u r. selects u [news] r) (map mkUser [0..<BATCH_SIZE]) picks"
    and queue: "map (\<lambda>q. (userData q, articleData q)) (queueColl w1)
                  = obligations (map mkUser [0..<BATCH_SIZE]) picks"
    by (auto simp add: page fields)
  have "map userData (queueColl w1) = map fst (map (\<lambda>q. (userData q, articleData q)) (queueColl w1))"
    by (simp add: comp_def)
  with queue obligations_news [OF picks]
  have users: "map userData (queueColl w1) = map mkUser [0..<BATCH_SIZE]" by simp
  then have ne: "queueColl w1 \<noteq> []" by (auto simp add: BATCH_SIZE_def)
  have pne: "usersPage 0 (bigAudience 1001) \<noteq> []" by (simp add: page BATCH_SIZE_def)
  from queueBreakingNewsItems_cases [OF q] pne r
  have t: "timers w1 = [Bound reliableStore (JSNumber 1000) None None]"
    and u: "unhandled w1 = []"
    using queueLoop_fields [of reliableStore "usersPage 0 (bigAudience 1001)"
        "called (DbGet ''User'' 0) True (bigAudience 1001)"]
    by (auto simp add: reliableStore_def setTimeout_def called_def fields BATCH_SIZE_def)
  from fire_selector_timer [OF t ne] u users obtain w2 where
    "runTimers 1 w1 = Some w2" "map userData (queueColl w2) = map mkUser [0..<BATCH_SIZE]"
    "timers w2 = []" "unhandled w2 = [TypeError]"
    by auto
  moreover have "mkUser 1000 \<in> set (userColl (bigAudience 1001))"
    by (simp add: bigAudience_def emptyWorld_def)
  ultimately show ?thesis using q r users t news_for_everyone [of 1000] fields
    by (simp add: mkUser_def)
qed

subsection \<open>A drain run of the Dispatcher\<close>

text \<open>
  C2, at a queue of 1001 obligations, with a store that never fails and a channel that takes
  every message: the call handles the first 1000 obligations and sets the timer for
  \<open>skip = 1000\<close>; the timer finds the page at \<open>skip = 1000\<close> of the one obligation that is
  left empty and stops. The run is over, the last obligation is still in the queue, and the
  messages that were sent went, two each, to the users 0 to 999.
\<close>

theorem drain_of_1001_leaves_one:
  "fst (sendQueuedItems reliableStore MessageObject (Some openChannel) None (bigQueue 1001)) = Inr ()
   \<and> queueColl (snd (sendQueuedItems reliableStore MessageObject (Some openChannel) None (bigQueue 1001)))
       = [mkItem 1000]
   \<and> timers (snd (sendQueuedItems reliableStore MessageObject (Some openChannel) None (bigQueue 1001)))
       = [Bound reliableStore MessageObject (Some openChannel) (Some 1000)]
   \<and> map_option queueColl
        (runTimers 1 (snd (sendQueuedItems reliableStore MessageObject (Some openChannel) None (bigQueue 1001))))
       = Some [mkItem 1000]
   \<and> map_option timers
        (runTimers 1 (snd (sendQueuedItems reliableStore MessageObject (Some openChannel) None (bigQueue 1001))))
       = Some []
   \<and> map_option unhandled
        (runTimers 1 (snd (sendQueuedItems reliableStore MessageObject (Some openChannel) None (bigQueue 1001))))
       = Some []
   \<and> map_option (\<lambda>w. recipients (trace w))
        (runTimers 1 (snd (sendQueuedItems reliableStore MessageObject (Some openChannel) None (bigQueue 1001))))
       = Some (concat (map (\<lambda>i. [i, i]) [0..<BATCH_SIZE]))"
proof -
  let ?w1 = "snd (sendQueuedItems reliableStore MessageObject (Some openChannel) None (bigQueue 1001))"
  have "BATCH_SIZE \<le> 1001" by (simp add: BATCH_SIZE_def)
  from bigQueue_first_page [OF this]
  have first: "fst (sendQueuedItems reliableStore MessageObject (Some openChannel) None (bigQueue 1001)) = Inr ()"
    "queueColl ?w1 = [mkItem 1000]"
    "timers ?w1 = [Bound reliableStore MessageObject (Some openChannel) (Some 1000)]"
    "unhandled ?w1 = []"
    by (simp_all add: BATCH_SIZE_def)
  from bigQueue_first_page [OF \<open>BATCH_SIZE \<le> 1001\<close>]
  have sent: "recipients (trace ?w1) = concat (map (\<lambda>i. [i, i]) [0..<BATCH_SIZE])" by simp
  from fire_on_short_queue [of ?w1 1000] first
  obtain w' where "runTimers 1 ?w1 = Some w'" "queueColl w' = [mkItem 1000]" "timers w' = []"
    "unhandled w' = []" "recipients (trace w') = recipients (trace ?w1)"
    by auto
  with first sent show ?thesis by simp
qed

subsection \<open>A send that fails\<close>

text \<open>
  C3. If, in one call of \<open>sendQueuedItems\<close>, some call of \<open>sendMessage\<close> fails, then
  the call of \<open>sendQueuedItems\<close> fails with the channel's error, and the page is left as it
  was: the article collection (hence every received-set) and the queue collection are
  unchanged, no update and no delete was issued, and no timer was set. This holds also when
  sends for earlier items of the page had succeeded.
\<close>

theorem failed_send_aborts_page:
  assumes run: "sendQueuedItems db MO sm skipArg w = (r, w')"
    and failed: "(SendMessage u m, False) \<in> set (drop (length (trace w)) (trace w'))"
  shows "r = Inl ChannelError
       \<and> articleColl w' = articleColl w \<and> queueColl w' = queueColl w \<and> userColl w' = userColl w
       \<and> timers w' = timers w
       \<and> list_all (\<lambda>ev. \<not> isUpdate ev \<and> \<not> isDelete ev) (drop (length (trace w)) (trace w'))"
proof -
  define skip where "skip = (case skipArg of None \<Rightarrow> 0 | Some s \<Rightarrow> s)"
  define page where "page = thePage skip w"
  define w1 where "w1 = called (DbGet QUEUE_COLLECTION skip) True w"
  have t1: "trace w1 = trace w @ [(DbGet QUEUE_COLLECTION skip, True)]" by (simp add: w1_def)
  show ?thesis
    using sendQueuedItems_cases [OF run, folded skip_def, folded page_def w1_def]
  proof (elim disjE conjE exE)
    assume "w' = called (DbGet QUEUE_COLLECTION skip) False w"
    with failed show ?thesis by simp
  next
    assume "w' = w1"
    with failed show ?thesis by (simp add: w1_def)
  next
    fix e assume "r = Inl e" and s: "sendLoop MO sm page ([], []) w1 = (Inl e, w')"
    from sendLoop_trace [OF s] obtain S where S: "trace w' = trace w1 @ S" "list_all isSend S"
      "(\<exists>ev \<in> set S. \<not> snd ev) \<longrightarrow> Inl e = (Inl ChannelError :: error + nat list \<times> (user \<times> article) list)"
      by blast
    from failed S(1) t1 have "(SendMessage u m, False) \<in> set S" by simp
    with S(3) have "e = ChannelError" by force
    moreover from sendLoop_fields [OF s] have "sameStore w w'" by (simp add: w1_def sameStore_def called_def)
    moreover have "list_all (\<lambda>ev. \<not> isUpdate ev \<and> \<not> isDelete ev) (drop (length (trace w)) (trace w'))"
      using S(1,2) t1 by (simp add: list_all_isSend_weaken)
    ultimately show ?thesis using \<open>r = Inl e\<close> by (simp add: sameStore_def)
  next
    fix acc w2 e
    assume s: "sendLoop MO sm page ([], []) w1 = (Inr acc, w2)"
      and mk: "markAsReceived db (snd acc) w2 = (Some e, w')"
    from sendLoop_Inr [OF s] have t2: "trace w2 = trace w1 @ succeeded (pageSends page)" by simp
    from markAsReceived_trace [OF mk] obtain U where "trace w' = trace w2 @ U" "list_all isUpdate U"
      by blast
    with failed t1 t2 show ?thesis
      by (simp add: succeeded_not_failed isUpdate_ok_not_failed_send)
  next
    fix acc w2 w3 e
    assume s: "sendLoop MO sm page ([], []) w1 = (Inr acc, w2)"
      and mk: "markAsReceived db (snd acc) w2 = (None, w3)"
      and d: "db_deleteWhere db (fst acc) w3 = (Inl e, w')"
    from sendLoop_Inr [OF s] have t2: "trace w2 = trace w1 @ succeeded (pageSends page)" by simp
    from markAsReceived_trace [OF mk] obtain U where "trace w3 = trace w2 @ U" "list_all isUpdate U"
      by blast
    moreover from db_deleteWhere_cases [OF d] have "trace w' = trace w3 @ [(DbDeleteWhere (fst acc), False)]"
      by auto
    ultimately show ?thesis using failed t1 t2
      by (simp add: succeeded_not_failed isUpdate_ok_not_failed_send)
  next
    fix acc w2 w3 w4
    assume s: "sendLoop MO sm page ([], []) w1 = (Inr acc, w2)"
      and mk: "markAsReceived db (snd acc) w2 = (None, w3)"
      and d: "db_deleteWhere db (fst acc) w3 = (Inr (), w4)"
      and w': "w' = setTimeout (Bound db MO sm (Some (skip + BATCH_SIZE))) BATCH_DELAY_MS w4"
    from sendLoop_Inr [OF s] have t2: "trace w2 = trace w1 @ succeeded (pageSends page)" by simp
    from markAsReceived_trace [OF mk] obtain U where "trace w3 = trace w2 @ U" "list_all isUpdate U"
      by blast
    moreover from db_deleteWhere_cases [OF d] have "trace w4 = trace w3 @ [(DbDeleteWhere (fst acc), True)]"
      by auto
    ultimately show ?thesis using failed t1 t2 w'
      by (simp add: succeeded_not_failed isUpdate_ok_not_failed_send setTimeout_def)
  qed
qed

theorem failed_send_aborts_page_witness:
  "(SendMessage (mkUser 2) (alertMessageFor (mkItem 2)), False)
      \<in> set (drop (length (trace threeQueued))
           (trace (snd (sendQueuedItems reliableStore MessageObject (Some refusesSecond) None threeQueued))))
   \<and> (SendMessage (mkUser 1) (carouselMessageFor (mkItem 1)), True)
      \<in> set (trace (snd (sendQueuedItems reliableStore MessageObject (Some refusesSecond) None threeQueued)))
   \<and> fst (sendQueuedItems reliableStore MessageObject (Some refusesSecond) None threeQueued) = Inl ChannelError
   \<and> queueColl (snd (sendQueuedItems reliableStore MessageObject (Some refusesSecond) None threeQueued))
       = [mkItem 1, mkItem 2, mkItem 3]
   \<and> articleColl (snd (sendQueuedItems reliableStore MessageObject (Some refusesSecond) None threeQueued))
       = [news]"
proof -
  have h: "(SendMessage (mkUser 2) (alertMessageFor (mkItem 2)), False)
      \<in> set (drop (length (trace threeQueued))
           (trace (threeQueued\<lparr>trace :=
          [(DbGet QUEUE_COLLECTION 0, True),
           (SendMessage (mkUser 1) (alertMessageFor (mkItem 1)), True),
           (SendMessage (mkUser 1) (carouselMessageFor (mkItem 1)), True),
           (SendMessage (mkUser 2) (alertMessageFor (mkItem 2)), False)]\<rparr>)))"
    by (simp add: threeQueued_def emptyWorld_def)
  from failed_send_aborts_page [OF threeQueued_refused h] h show ?thesis
    unfolding threeQueued_refused by (simp add: threeQueued_def emptyWorld_def)
qed

subsection \<open>The article selected for a user\<close>

text \<open>
  C4. The article that \<open>getNextBreakingNewsForUser\<close> returns for a user is an article of the
  collection that the user has not received, that was published strictly after the user's
  profile was created, whose \<open>isPublished\<close> is not false and whose \<open>isPriority\<close> is true,
  and no article with these four properties has an earlier publish date; it returns nothing
  exactly when no article has the four properties. A call of \<open>queueBreakingNewsItems\<close> that
  succeeds has inserted, for the users of its page in order, one obligation for each user for
  whom an article was found, with that article, and none for the others.
\<close>

theorem next_article_is_earliest_eligible:
  "(getNextBreakingNewsForUser db recUser w = (Inr pick, w1) \<longrightarrow>
       selects recUser (articleColl w) pick
     \<and> (\<forall>a. pick = Some a \<longrightarrow>
           user_id recUser \<notin> set (receivedByUsers a) \<and> profile_created recUser < articleDate a
         \<and> isPublished a \<noteq> Some False \<and> isPriority a = Some True))
   \<and> (queueBreakingNewsItems db skipArg w = (Inr (), w') \<longrightarrow>
       (\<exists>picks. list_all2 (\<lambda>u r. selects u (articleColl w) r)
                    (usersPage (case skipArg of None \<Rightarrow> 0 | Some s \<Rightarrow> s) w) picks
           \<and> map (\<lambda>q. (userData q, articleData q)) (queueColl w')
               = map (\<lambda>q. (userData q, articleData q)) (queueColl w)
                 @ obligations (usersPage (case skipArg of None \<Rightarrow> 0 | Some s \<Rightarrow> s) w) picks))"
proof -
  have "selects recUser (articleColl w) pick
     \<and> (\<forall>a. pick = Some a \<longrightarrow>
           user_id recUser \<notin> set (receivedByUsers a) \<and> profile_created recUser < articleDate a
         \<and> isPublished a \<noteq> Some False \<and> isPriority a = Some True)"
    if "getNextBreakingNewsForUser db recUser w = (Inr pick, w1)"
    using getNextBreakingNewsForUser_cases [OF that] selects_conditions [of recUser "articleColl w"]
    by auto
  then show ?thesis using queueBreakingNewsItems_Inr [of db skipArg w w'] by blast
qed

theorem next_article_is_earliest_eligible_witness:
  "getNextBreakingNewsForUser reliableStore alice newsroom
     = (Inr (Some (story 6 20 None (Some True) [2])), called (DbGetArticle 1) True newsroom)
   \<and> selects alice (articleColl newsroom) (Some (story 6 20 None (Some True) [2]))
   \<and> profile_created alice < articleDate (story 6 20 None (Some True) [2])
   \<and> fst (queueBreakingNewsItems reliableStore None newsroom) = Inr ()
   \<and> (\<exists>picks. list_all2 (\<lambda>u r. selects u (articleColl newsroom) r) [alice, bob] picks
         \<and> map (\<lambda>q. (userData q, articleData q))
              (queueColl (snd (queueBreakingNewsItems reliableStore None newsroom)))
             = obligations [alice, bob] picks)"
proof -
  from next_article_is_earliest_eligible [of reliableStore alice newsroom
      "Some (story 6 20 None (Some True) [2])" "called (DbGetArticle 1) True newsroom" None
      "snd (queueBreakingNewsItems reliableStore None newsroom)"]
    newsroom_lookup newsroom_pass
  have "selects alice (articleColl newsroom) (Some (story 6 20 None (Some True) [2]))
     \<and> profile_created alice < articleDate (story 6 20 None (Some True) [2])
     \<and> (\<exists>picks. list_all2 (\<lambda>u r. selects u (articleColl newsroom) r) (usersPage 0 newsroom) picks
         \<and> map (\<lambda>q. (userData q, articleData q))
              (queueColl (snd (queueBreakingNewsItems reliableStore None newsroom)))
             = map (\<lambda>q. (userData q, articleData q)) (queueColl newsroom)
               @ obligations (usersPage 0 newsroom) picks)"
    by simp
  then show ?thesis
    using newsroom_lookup newsroom_pass
    by (simp add: newsroom_usersPage) (simp add: newsroom_def emptyWorld_def)
qed

subsection \<open>The order of the calls within a page\<close>

text \<open>
  C5. The calls that one call of \<open>sendQueuedItems\<close> makes on its collaborators are, in
  this order: the page query; then only sends; then only received-set updates; then nothing
  that is a send or an update. When the call succeeds, the sends are exactly the alert and
  then the card of each item of the page, item after item in fetch order; the updates are one
  per item, issued after the last send; and they are followed by a single \<open>deleteWhere\<close>
  on the identifiers of all items of the page and by the timer for the next page.
\<close>

theorem page_trace:
  assumes run: "sendQueuedItems db MO sm skipArg w = (r, w')"
  shows "\<exists>ok S U D.
           trace w' = trace w @ [(DbGet QUEUE_COLLECTION (case skipArg of None \<Rightarrow> 0 | Some s \<Rightarrow> s), ok)] @ S @ U @ D
         \<and> list_all isSend S \<and> list_all isUpdate U
         \<and> list_all (\<lambda>ev. \<not> isSend ev \<and> \<not> isUpdate ev) D
         \<and> (r = Inr () \<longrightarrow> ok
             \<and> S = succeeded (pageSends (thePage (case skipArg of None \<Rightarrow> 0 | Some s \<Rightarrow> s) w))
             \<and> U = succeeded (pageUpdates (thePage (case skipArg of None \<Rightarrow> 0 | Some s \<Rightarrow> s) w))
             \<and> D = (if thePage (case skipArg of None \<Rightarrow> 0 | Some s \<Rightarrow> s) w = [] then []
                    else succeeded [DbDeleteWhere (map item_id (thePage (case skipArg of None \<Rightarrow> 0 | Some s \<Rightarrow> s) w)),
                               SetTimeout BATCH_DELAY_MS]))"
proof -
  define skip where "skip = (case skipArg of None \<Rightarrow> 0 | Some s \<Rightarrow> s)"
  define page where "page = thePage skip w"
  define w1 where "w1 = called (DbGet QUEUE_COLLECTION skip) True w"
  let ?goal = "\<exists>ok S U D.
           trace w' = trace w @ [(DbGet QUEUE_COLLECTION skip, ok)] @ S @ U @ D
         \<and> list_all isSend S \<and> list_all isUpdate U
         \<and> list_all (\<lambda>ev. \<not> isSend ev \<and> \<not> isUpdate ev) D
         \<and> (r = Inr () \<longrightarrow> ok
             \<and> S = succeeded (pageSends page) \<and> U = succeeded (pageUpdates page)
             \<and> D = (if page = [] then []
                    else succeeded [DbDeleteWhere (map item_id page), SetTimeout BATCH_DELAY_MS]))"
  have intro: "?goal"
    if "trace w' = trace w @ [(DbGet QUEUE_COLLECTION skip, ok)] @ S @ U @ D"
      and "list_all isSend S" and "list_all isUpdate U"
      and "list_all (\<lambda>ev. \<not> isSend ev \<and> \<not> isUpdate ev) D"
      and "r = Inr () \<longrightarrow> ok
             \<and> S = succeeded (pageSends page) \<and> U = succeeded (pageUpdates page)
             \<and> D = (if page = [] then []
                    else succeeded [DbDeleteWhere (map item_id page), SetTimeout BATCH_DELAY_MS])"
    for ok S U D
    using that by blast
  have ?goal
    using sendQueuedItems_cases [OF run, folded skip_def, folded page_def w1_def]
  proof (elim disjE conjE exE)
    assume "r = Inl StoreError" "w' = called (DbGet QUEUE_COLLECTION skip) False w"
    then show ?thesis by (intro intro [of False "[]" "[]" "[]"]) simp_all
  next
    assume "page = []" "r = Inr ()" "w' = w1"
    then show ?thesis
      by (intro intro [of True "[]" "[]" "[]"]) (simp_all add: w1_def succeeded_def pageSends_def pageUpdates_def)
  next
    fix e assume "page \<noteq> []" "r = Inl e" and s: "sendLoop MO sm page ([], []) w1 = (Inl e, w')"
    from sendLoop_trace [OF s] obtain S where "trace w' = trace w1 @ S" "list_all isSend S" by blast
    with \<open>r = Inl e\<close> show ?thesis by (intro intro [of True S "[]" "[]"]) (simp_all add: w1_def)
  next
    fix acc w2 e
    assume "page \<noteq> []" and s: "sendLoop MO sm page ([], []) w1 = (Inr acc, w2)"
      and m: "markAsReceived db (snd acc) w2 = (Some e, w')" and "r = Inl e"
    from sendLoop_Inr [OF s] have t2: "trace w2 = trace w1 @ succeeded (pageSends page)" by simp
    from markAsReceived_trace [OF m] obtain U where "trace w' = trace w2 @ U" "list_all isUpdate U"
      by blast
    with t2 \<open>r = Inl e\<close> show ?thesis
      by (intro intro [of True "succeeded (pageSends page)" U "[]"])
        (simp_all add: w1_def list_all_isSend_succeeded_pageSends)
  next
    fix acc w2 w3 e
    assume "page \<noteq> []" and s: "sendLoop MO sm page ([], []) w1 = (Inr acc, w2)"
      and m: "markAsReceived db (snd acc) w2 = (None, w3)"
      and d: "db_deleteWhere db (fst acc) w3 = (Inl e, w')" and "r = Inl e"
    from sendLoop_Inr [OF s] have t2: "trace w2 = trace w1 @ succeeded (pageSends page)" by simp
    from markAsReceived_trace [OF m] obtain U where "trace w3 = trace w2 @ U" "list_all isUpdate U"
      by blast
    moreover from db_deleteWhere_cases [OF d] have "trace w' = trace w3 @ [(DbDeleteWhere (fst acc), False)]"
      by auto
    ultimately show ?thesis using t2 \<open>r = Inl e\<close>
      by (intro intro [of True "succeeded (pageSends page)" U "[(DbDeleteWhere (fst acc), False)]"])
        (simp_all add: w1_def list_all_isSend_succeeded_pageSends)
  next
    fix acc w2 w3 w4
    assume "page \<noteq> []" and s: "sendLoop MO sm page ([], []) w1 = (Inr acc, w2)"
      and m: "markAsReceived db (snd acc) w2 = (None, w3)"
      and d: "db_deleteWhere db (fst acc) w3 = (Inr (), w4)" and "r = Inr ()"
      and w': "w' = setTimeout (Bound db MO sm (Some (skip + BATCH_SIZE))) BATCH_DELAY_MS w4"
    from sendLoop_Inr [OF s] have t2: "trace w2 = trace w1 @ succeeded (pageSends page)"
      and acc: "acc = (map item_id page, map (\<lambda>q. (userData q, articleData q)) page)" by simp_all
    from markAsReceived_trace [OF m] acc have t3: "trace w3 = trace w2 @ succeeded (pageUpdates page)"
      by (auto simp add: pageUpdates_def comp_def)
    from db_deleteWhere_cases [OF d] acc have t4: "trace w4 = trace w3 @ [(DbDeleteWhere (map item_id page), True)]"
      by auto
    have t: "trace w' = trace w @ [(DbGet QUEUE_COLLECTION skip, True)]
        @ succeeded (pageSends page) @ succeeded (pageUpdates page)
        @ succeeded [DbDeleteWhere (map item_id page), SetTimeout BATCH_DELAY_MS]"
      using t2 t3 t4 w' by (simp add: w1_def setTimeout_def succeeded_def)
    have u: "list_all isUpdate (succeeded (pageUpdates page))"
      by (induction page) (simp_all add: succeeded_def pageUpdates_def)
    have dd: "list_all (\<lambda>ev. \<not> isSend ev \<and> \<not> isUpdate ev)
        (succeeded [DbDeleteWhere (map item_id page), SetTimeout BATCH_DELAY_MS])"
      by (simp add: succeeded_def)
    show ?thesis
      by (rule intro [OF t list_all_isSend_succeeded_pageSends u dd]) (simp add: \<open>page \<noteq> []\<close>)
  qed
  then show ?thesis by (simp only: skip_def page_def)
qed

theorem page_trace_witness:
  "fst (sendQueuedItems reliableStore MessageObject (Some openChannel) None threeQueued) = Inr ()
   \<and> trace (snd (sendQueuedItems reliableStore MessageObject (Some openChannel) None threeQueued))
       = trace threeQueued @ [(DbGet QUEUE_COLLECTION 0, True)]
           @ succeeded (pageSends [mkItem 1, mkItem 2, mkItem 3])
           @ succeeded (pageUpdates [mkItem 1, mkItem 2, mkItem 3])
           @ succeeded [DbDeleteWhere [1, 2, 3], SetTimeout BATCH_DELAY_MS]"
proof -
  from page_trace [OF threeQueued_sent] obtain ok S U D where
    t: "trace (threeQueued\<lparr>articleColl := [news\<lparr>receivedByUsers := [1, 2, 3]\<rparr>], queueColl := [],
          timers := [Bound reliableStore MessageObject (Some openChannel) (Some 1000)],
          trace :=
          [(DbGet QUEUE_COLLECTION 0, True),
           (SendMessage (mkUser 1) (alertMessageFor (mkItem 1)), True),
           (SendMessage (mkUser 1) (carouselMessageFor (mkItem 1)), True),
           (SendMessage (mkUser 2) (alertMessageFor (mkItem 2)), True),
           (SendMessage (mkUser 2) (carouselMessageFor (mkItem 2)), True),
           (SendMessage (mkUser 3) (alertMessageFor (mkItem 3)), True),
           (SendMessage (mkUser 3) (carouselMessageFor (mkItem 3)), True),
           (DbUpdate 7 1, True), (DbUpdate 7 2, True), (DbUpdate 7 3, True),
           (DbDeleteWhere [1, 2, 3], True),
           (SetTimeout 1000, True)]\<rparr>)
        = trace threeQueued @ [(DbGet QUEUE_COLLECTION (case None of None \<Rightarrow> 0 | Some s \<Rightarrow> s), ok)] @ S @ U @ D"
    and r: "Inr () = (Inr () :: error + unit) \<longrightarrow> ok
        \<and> S = succeeded (pageSends (thePage (case None of None \<Rightarrow> 0 | Some s \<Rightarrow> s) threeQueued))
        \<and> U = succeeded (pageUpdates (thePage (case None of None \<Rightarrow> 0 | Some s \<Rightarrow> s) threeQueued))
        \<and> D = (if thePage (case None of None \<Rightarrow> 0 | Some s \<Rightarrow> s) threeQueued = [] then []
               else succeeded [DbDeleteWhere (map item_id (thePage (case None of None \<Rightarrow> 0 | Some s \<Rightarrow> s) threeQueued)),
                               SetTimeout BATCH_DELAY_MS])"
    by blast
  from r have "ok" "S = succeeded (pageSends [mkItem 1, mkItem 2, mkItem 3])"
    "U = succeeded (pageUpdates [mkItem 1, mkItem 2, mkItem 3])"
    "D = succeeded [DbDeleteWhere [1, 2, 3], SetTimeout BATCH_DELAY_MS]"
    by (simp_all add: thePage_threeQueued mkItem_def)
  with t show ?thesis unfolding threeQueued_sent by simp
qed

subsection \<open>The Recovery Orchestrator\<close>




subsection \<open>The received-set update\<close>

lemma addToSet_idem: "addToSet x (addToSet x xs) = addToSet x xs"
  by (simp add: addToSet_def)

lemma markReceived_idem: "markReceived uid (markReceived uid a) = markReceived uid a"
  by (simp add: markReceived_def addToSet_idem)

lemma applyUpdate_idem: "applyUpdate r uid (applyUpdate r uid docs) = applyUpdate r uid docs"
proof -
  have "(if article_id (if article_id d = article_id r then markReceived uid d else d) = article_id r
         then markReceived uid (if article_id d = article_id r then markReceived uid d else d)
         else (if article_id d = article_id r then markReceived uid d else d))
        = (if article_id d = article_id r then markReceived uid d else d)" for d
    using markReceived_idem [of uid d] by (simp add: markReceived_def)
  then show ?thesis by (simp add: applyUpdate_def)
qed

lemma applyUpdate_other_fields:
  "map (\<lambda>d. d\<lparr>receivedByUsers := []\<rparr>) (applyUpdate r uid docs)
     = map (\<lambda>d. d\<lparr>receivedByUsers := []\<rparr>) docs"
  by (induction docs) (simp_all add: applyUpdate_def markReceived_def)

lemma applyUpdate_keeps_members:
  "map (\<lambda>d. set (receivedByUsers d) - {uid}) (applyUpdate r uid docs)
     = map (\<lambda>d. set (receivedByUsers d) - {uid}) docs"
  by (induction docs) (auto simp add: applyUpdate_def markReceived_def addToSet_def)

lemma db_update_articles:
  "articleColl (snd (db_update db r uid w)) = articleColl w
   \<or> articleColl (snd (db_update db r uid w)) = applyUpdate r uid (articleColl w)"
  by (simp add: db_update_def called_def Let_def)

text \<open>
  C7. The received-set update of the Dispatcher (\<open>$addToSet\<close> of the user's id on the stored
  article that has the identifier of the snapshot) is idempotent: applied twice it leaves the
  article collection as applied once. It changes no other field of any article, adds and
  removes no article, and removes no identifier from any received-set. A call of
  \<open>database.update\<close> leaves the article collection either as it was (the store failed) or
  with exactly this mutation applied, so two calls in a row never produce a third state; the
  user and queue collections are not touched.
\<close>

theorem received_update_idempotent:
  "applyUpdate r uid (applyUpdate r uid docs) = applyUpdate r uid docs
   \<and> map (\<lambda>d. d\<lparr>receivedByUsers := []\<rparr>) (applyUpdate r uid docs)
       = map (\<lambda>d. d\<lparr>receivedByUsers := []\<rparr>) docs
   \<and> map (\<lambda>d. set (receivedByUsers d) - {uid}) (applyUpdate r uid docs)
       = map (\<lambda>d. set (receivedByUsers d) - {uid}) docs
   \<and> articleColl (snd (db_update db r uid (snd (db_update db r uid w))))
       \<in> {articleColl w, applyUpdate r uid (articleColl w)}
   \<and> userColl (snd (db_update db r uid w)) = userColl w
   \<and> queueColl (snd (db_update db r uid w)) = queueColl w"
proof -
  have "articleColl (snd (db_update db r uid (snd (db_update db r uid w))))
       \<in> {articleColl w, applyUpdate r uid (articleColl w)}"
    using db_update_articles [of db r uid w]
      db_update_articles [of db r uid "snd (db_update db r uid w)"]
    by (auto simp add: applyUpdate_idem)
  moreover have "userColl (snd (db_update db r uid w)) = userColl w
      \<and> queueColl (snd (db_update db r uid w)) = queueColl w"
    by (simp add: db_update_def called_def Let_def)
  ultimately show ?thesis
    using applyUpdate_idem applyUpdate_other_fields applyUpdate_keeps_members by blast
qed

subsection \<open>What the Selector writes\<close>

text \<open>
  C8. A pass of the Candidate Selector leaves the User and the Article collection as they
  were, whatever the starting state and whether or not the store fails on the way. This holds
  when the call of \<open>queueBreakingNewsItems\<close> returns, and it still holds once the timer that
  the call has set has fired (started with no other timer pending, the pass is over after
  that one timer).
\<close>

theorem selector_writes_queue_only:
  "userColl (snd (queueBreakingNewsItems db skipArg w)) = userColl w
   \<and> articleColl (snd (queueBreakingNewsItems db skipArg w)) = articleColl w
   \<and> (timers w = [] \<longrightarrow>
        (\<exists>w''. runTimers 1 (snd (queueBreakingNewsItems db skipArg w)) = Some w''
           \<and> timers w'' = [] \<and> userColl w'' = userColl w \<and> articleColl w'' = articleColl w))"
proof -
  obtain r w' where q: "queueBreakingNewsItems db skipArg w = (r, w')" by force
  note f = queueBreakingNewsItems_fields [OF q]
  have "\<exists>w''. runTimers 1 w' = Some w''
           \<and> timers w'' = [] \<and> userColl w'' = userColl w \<and> articleColl w'' = articleColl w"
    if "timers w = []"
  proof -
    from f that consider "timers w' = []"
      | "timers w' = [Bound db (JSNumber ((case skipArg of None \<Rightarrow> 0 | Some s \<Rightarrow> s) + BATCH_SIZE)) None None]"
      by auto
    then show ?thesis
    proof cases
      case 1
      with f show ?thesis by simp
    next
      case 2
      let ?t = "Bound db (JSNumber ((case skipArg of None \<Rightarrow> 0 | Some s \<Rightarrow> s) + BATCH_SIZE)) None None"
      have "runTimers 1 w' = runTimers 0 (runTask ?t (w'\<lparr>timers := []\<rparr>))"
        using 2 by (simp add: One_nat_def del: runTask.simps)
      moreover note runTask_JSNumber_fields [of db _ None None "w'\<lparr>timers := []\<rparr>"]
      ultimately show ?thesis using f by (simp del: runTask.simps)
    qed
  qed
  with f q show ?thesis by simp
qed

theorem selector_writes_queue_only_witness:
  "timers newsroom = []
   \<and> userColl (snd (queueBreakingNewsItems reliableStore None newsroom)) = [carol, bob, alice]
   \<and> articleColl (snd (queueBreakingNewsItems reliableStore None newsroom)) = articleColl newsroom
   \<and> (\<exists>w''. runTimers 1 (snd (queueBreakingNewsItems reliableStore None newsroom)) = Some w''
         \<and> timers w'' = [] \<and> userColl w'' = [carol, bob, alice]
         \<and> articleColl w'' = articleColl newsroom)"
  using selector_writes_queue_only [of reliableStore None newsroom]
  by (simp add: newsroom_def emptyWorld_def)

subsection \<open>An absent page\<close>

text \<open>
  C9. When the store answers a page query with an absent value instead of a list,
  \<open>getBatchOfQueuedItems\<close> and \<open>getBatchOfUsers\<close> return the empty list, and the call of
  \<open>sendQueuedItems\<close>, respectively \<open>queueBreakingNewsItems\<close>, that asked for the page returns
  normally: nothing but the query is recorded, no timer is set, nothing fails.
\<close>

theorem absent_page_is_empty:
  "(fst (db_get db (DbGet QUEUE_COLLECTION skip) (queueColl w) (\<lambda>q. True) addedDate skip BATCH_SIZE w)
       = Inr None
      \<longrightarrow> fst (getBatchOfQueuedItems db skip w) = Inr []
        \<and> sendQueuedItems db MO sm (Some skip) w = (Inr (), called (DbGet QUEUE_COLLECTION skip) True w)
        \<and> timers (snd (sendQueuedItems db MO sm (Some skip) w)) = timers w)
   \<and> (fst (db_get db (DbGet ''User'' skip) (userColl w) (\<lambda>u. bot_disabled u \<noteq> Some True) user_id
              skip BATCH_SIZE w) = Inr None
      \<longrightarrow> fst (getBatchOfUsers db skip w) = Inr []
        \<and> queueBreakingNewsItems db (Some skip) w = (Inr (), called (DbGet ''User'' skip) True w)
        \<and> timers (snd (queueBreakingNewsItems db (Some skip) w)) = timers w)"
  by (auto simp add: getBatchOfQueuedItems_def sendQueuedItems_def getBatchOfUsers_def
      queueBreakingNewsItems_def db_get_def Let_def called_def split: if_splits)

theorem absent_page_is_empty_witness:
  "fst (db_get nullStore (DbGet QUEUE_COLLECTION 0) (queueColl emptyWorld) (\<lambda>q. True) addedDate 0
          BATCH_SIZE emptyWorld) = Inr None
   \<and> fst (db_get nullStore (DbGet ''User'' 0) (userColl emptyWorld) (\<lambda>u. bot_disabled u \<noteq> Some True)
          user_id 0 BATCH_SIZE emptyWorld) = Inr None
   \<and> fst (getBatchOfQueuedItems nullStore 0 emptyWorld) = Inr []
   \<and> fst (sendQueuedItems nullStore MessageObject (Some openChannel) (Some 0) emptyWorld) = Inr ()
   \<and> fst (getBatchOfUsers nullStore 0 emptyWorld) = Inr []
   \<and> fst (queueBreakingNewsItems nullStore (Some 0) emptyWorld) = Inr ()"
proof -
  have q: "fst (db_get nullStore (DbGet QUEUE_COLLECTION 0) (queueColl emptyWorld) (\<lambda>q. True) addedDate 0
          BATCH_SIZE emptyWorld) = Inr None"
    by (simp add: db_get_def nullStore_def emptyWorld_def store_query_def)
  have u: "fst (db_get nullStore (DbGet ''User'' 0) (userColl emptyWorld) (\<lambda>u. bot_disabled u \<noteq> Some True)
          user_id 0 BATCH_SIZE emptyWorld) = Inr None"
    by (simp add: db_get_def nullStore_def emptyWorld_def store_query_def)
  from absent_page_is_empty [of nullStore 0 emptyWorld MessageObject "Some openChannel"] q u
  show ?thesis by simp
qed

subsection \<open>The disabled flag\<close>

text \<open>
  C10. The page that the Dispatcher fetches is cut from the whole queue in the order of
  \<open>addedDate\<close>: no obligation is left out because of a disabled flag, neither the flag in the
  snapshot of the user inside the obligation nor the flag of the user in the User collection
  (changing either changes nothing in which obligations the page holds). When the call
  succeeds, the alert and the card of every obligation of the page have been sent to the user
  of its snapshot, whatever the flags; and with unique identifiers in the queue, every queued
  obligation, whatever its flags, comes to be dispatched by the successive calls at
  \<open>skip = 0\<close>. The page of users that the Selector fetches, on the other hand, holds no user
  whose flag is true.
\<close>

theorem dispatch_ignores_disabled_flag:
  "(fst (getBatchOfQueuedItems db skip w) = Inr page \<longrightarrow>
       page = take BATCH_SIZE (drop skip (sort_key addedDate (queueColl w))))
   \<and> thePage skip (w\<lparr>userColl := us'\<rparr>) = thePage skip w
   \<and> map item_id (thePage skip (w\<lparr>queueColl := map (withFlags f) (queueColl w)\<rparr>))
       = map item_id (thePage skip w)
   \<and> (sendQueuedItems db MO sm skipArg w = (Inr (), w') \<longrightarrow>
        (\<forall>q \<in> set (thePage (case skipArg of None \<Rightarrow> 0 | Some s \<Rightarrow> s) w).
           (SendMessage (userData q) (alertMessageFor q), True) \<in> set (drop (length (trace w)) (trace w'))
         \<and> (SendMessage (userData q) (carouselMessageFor q), True) \<in> set (drop (length (trace w)) (trace w'))))
   \<and> (distinct (map item_id (queueColl w)) \<longrightarrow>
        (\<forall>q \<in> set (queueColl w).
           \<exists>n. (SendMessage (userData q) (alertMessageFor q), True) \<in> set (trace (drainCalls n w))
              \<and> (SendMessage (userData q) (carouselMessageFor q), True) \<in> set (trace (drainCalls n w))))
   \<and> (fst (getBatchOfUsers db skip w) = Inr us \<longrightarrow>
        us = usersPage skip w \<and> (\<forall>u \<in> set us. bot_disabled u \<noteq> Some True))"
proof -
  have a: "page = take BATCH_SIZE (drop skip (sort_key addedDate (queueColl w)))"
    if "fst (getBatchOfQueuedItems db skip w) = Inr page"
  proof -
    obtain r0 w0 where g: "getBatchOfQueuedItems db skip w = (r0, w0)" by force
    from getBatchOfQueuedItems_cases [OF g] that g show ?thesis by (auto simp add: thePage_def)
  qed
  have b: "thePage skip (w\<lparr>userColl := us'\<rparr>) = thePage skip w" by (simp add: thePage_def)
  have c: "map item_id (thePage skip (w\<lparr>queueColl := map (withFlags f) (queueColl w)\<rparr>))
       = map item_id (thePage skip w)"
    by (simp add: thePage_withFlags comp_def withFlags_def)
  have d: "us = usersPage skip w \<and> (\<forall>u \<in> set us. bot_disabled u \<noteq> Some True)"
    if "fst (getBatchOfUsers db skip w) = Inr us"
  proof -
    obtain r0 w0 where g: "getBatchOfUsers db skip w = (r0, w0)" by force
    from getBatchOfUsers_cases [OF g] that g have us: "us = usersPage skip w" by auto
    have "set (usersPage skip w) \<subseteq> set (filter (\<lambda>u. bot_disabled u \<noteq> Some True) (userColl w))"
      unfolding usersPage_def
      using set_take_subset set_drop_subset set_sort by (metis (no_types, lifting) subset_trans order_refl)
    with us show ?thesis by auto
  qed
  have e: "\<forall>q \<in> set (queueColl w).
           \<exists>n. (SendMessage (userData q) (alertMessageFor q), True) \<in> set (trace (drainCalls n w))
              \<and> (SendMessage (userData q) (carouselMessageFor q), True) \<in> set (trace (drainCalls n w))"
    if "distinct (map item_id (queueColl w))"
    using drainCalls_dispatches [OF that] by blast
  have s: "\<forall>q \<in> set (thePage (case skipArg of None \<Rightarrow> 0 | Some s \<Rightarrow> s) w).
           (SendMessage (userData q) (alertMessageFor q), True) \<in> set (drop (length (trace w)) (trace w'))
         \<and> (SendMessage (userData q) (carouselMessageFor q), True) \<in> set (drop (length (trace w)) (trace w'))"
    if "sendQueuedItems db MO sm skipArg w = (Inr (), w')"
    using sendQueuedItems_Inr_sends [OF that] by blast
  from a have a': "fst (getBatchOfQueuedItems db skip w) = Inr page \<longrightarrow>
       page = take BATCH_SIZE (drop skip (sort_key addedDate (queueColl w)))" by (rule impI)
  from s have s': "sendQueuedItems db MO sm skipArg w = (Inr (), w') \<longrightarrow>
        (\<forall>q \<in> set (thePage (case skipArg of None \<Rightarrow> 0 | Some s \<Rightarrow> s) w).
           (SendMessage (userData q) (alertMessageFor q), True) \<in> set (drop (length (trace w)) (trace w'))
         \<and> (SendMessage (userData q) (carouselMessageFor q), True) \<in> set (drop (length (trace w)) (trace w')))"
    by (rule impI)
  from e have e': "distinct (map item_id (queueColl w)) \<longrightarrow>
        (\<forall>q \<in> set (queueColl w).
           \<exists>n. (SendMessage (userData q) (alertMessageFor q), True) \<in> set (trace (drainCalls n w))
              \<and> (SendMessage (userData q) (carouselMessageFor q), True) \<in> set (trace (drainCalls n w)))"
    by (rule impI)
  from d have d': "fst (getBatchOfUsers db skip w) = Inr us \<longrightarrow>
        us = usersPage skip w \<and> (\<forall>u \<in> set us. bot_disabled u \<noteq> Some True)" by (rule impI)
  show ?thesis
    by (rule conjI [OF a' conjI [OF b conjI [OF c conjI [OF s' conjI [OF e' d']]]]])
qed

theorem dispatch_ignores_disabled_flag_witness:
  "bot_disabled carol = Some True
   \<and> fst (getBatchOfQueuedItems reliableStore 0 disabledQueued)
       = Inr [\<lparr>item_id = 9, userData = carol, articleData = news, addedDate = 0\<rparr>]
   \<and> fst (sendQueuedItems reliableStore MessageObject (Some openChannel) None disabledQueued) = Inr ()
   \<and> (SendMessage carol (Outgoing carol (Text ''Breaking news!'')), True)
       \<in> set (trace (snd (sendQueuedItems reliableStore MessageObject (Some openChannel) None disabledQueued)))
   \<and> distinct (map item_id (queueColl disabledQueued))
   \<and> (\<exists>n. (SendMessage carol (Outgoing carol (Text ''Breaking news!'')), True)
          \<in> set (trace (drainCalls n disabledQueued)))
   \<and> fst (getBatchOfUsers reliableStore 0 disabledQueued) = Inr [alice]"
proof -
  have g: "fst (getBatchOfQueuedItems reliableStore 0 disabledQueued)
       = Inr [\<lparr>item_id = 9, userData = carol, articleData = news, addedDate = 0\<rparr>]"
    by (simp add: getBatchOfQueuedItems_def db_get_def store_query_def reliableStore_def
        disabledQueued_def emptyWorld_def BATCH_SIZE_def)
  have u: "fst (getBatchOfUsers reliableStore 0 disabledQueued) = Inr [alice]"
    by (simp add: getBatchOfUsers_def db_get_def store_query_def reliableStore_def
        disabledQueued_def emptyWorld_def carol_def alice_def BATCH_SIZE_def)
  have p: "thePage 0 disabledQueued = [\<lparr>item_id = 9, userData = carol, articleData = news, addedDate = 0\<rparr>]"
    by (simp add: thePage_def disabledQueued_def emptyWorld_def BATCH_SIZE_def)
  have q: "queueColl disabledQueued = [\<lparr>item_id = 9, userData = carol, articleData = news, addedDate = 0\<rparr>]"
    by (simp add: disabledQueued_def emptyWorld_def)
  note inst = dispatch_ignores_disabled_flag [of reliableStore 0 disabledQueued
      "[\<lparr>item_id = 9, userData = carol, articleData = news, addedDate = 0\<rparr>]" "[]" "\<lambda>q. None"
      MessageObject "Some openChannel" None
      "snd (sendQueuedItems reliableStore MessageObject (Some openChannel) None disabledQueued)" "[alice]"]
  from inst q have live: "\<exists>n. (SendMessage carol (Outgoing carol (Text ''Breaking news!'')), True)
          \<in> set (trace (drainCalls n disabledQueued))"
    by (auto simp add: alertMessageFor_def)
  from dispatch_ignores_disabled_flag [of reliableStore 0 disabledQueued
      "[\<lparr>item_id = 9, userData = carol, articleData = news, addedDate = 0\<rparr>]" "[]" "\<lambda>q. None"
      MessageObject "Some openChannel" None
      "snd (sendQueuedItems reliableStore MessageObject (Some openChannel) None disabledQueued)" "[alice]"]
    g u p disabledQueued_sent
  have "(SendMessage carol (Outgoing carol (Text ''Breaking news!'')), True)
       \<in> set (drop (length (trace disabledQueued))
            (trace (snd (sendQueuedItems reliableStore MessageObject (Some openChannel) None disabledQueued))))"
    by (simp add: alertMessageFor_def)
  then have "(SendMessage carol (Outgoing carol (Text ''Breaking news!'')), True)
       \<in> set (trace (snd (sendQueuedItems reliableStore MessageObject (Some openChannel) None disabledQueued)))"
    by (rule in_set_dropD)
  with g u q live disabledQueued_sent show ?thesis by (simp add: carol_def)
qed

end
